theory Spec2Isabelle
  imports Main "HOL-Library.Sublist"
begin

section \<open>Text of the job scraper\<close>

text \<open>
  Python text is a sequence of code points. It is modelled as \<open>string\<close> with one
  \<open>char\<close> per code point, so the model covers text whose code points are below 256
  (Latin-1). The character classes below are Python's \<open>str.isspace\<close> (also the class
  \<open>\s\<close> of \<open>re\<close>), the decimal digits (the class \<open>\d\<close>) and \<open>str.lower\<close>, each
  restricted to that range.
\<close>

definition is_space :: "char \<Rightarrow> bool" where
  "is_space c =
     (let n = (of_char c :: nat)
      in (9 \<le> n \<and> n \<le> 13) \<or> (28 \<le> n \<and> n \<le> 31) \<or> n = 32 \<or> n = 133 \<or> n = 160)"

definition is_digit :: "char \<Rightarrow> bool" where
  "is_digit c = (let n = (of_char c :: nat) in 48 \<le> n \<and> n \<le> 57)"

definition lower_char :: "char \<Rightarrow> char" where
  "lower_char c =
     (let n = (of_char c :: nat)
      in if (65 \<le> n \<and> n \<le> 90) \<or> (192 \<le> n \<and> n \<le> 222 \<and> n \<noteq> 215)
         then char_of (n + 32) else c)"

definition lower :: "string \<Rightarrow> string" where
  "lower s = map lower_char s"

text \<open>Python truthiness of an optional string: neither \<open>None\<close> nor empty.\<close>

definition truthy :: "string option \<Rightarrow> bool" where
  "truthy t = (case t of None \<Rightarrow> False | Some s \<Rightarrow> s \<noteq> [])"

text \<open>\<open>x or ""\<close> and \<open>x or y\<close> on optional strings.\<close>

definition or_empty :: "string option \<Rightarrow> string" where
  "or_empty t = (case t of None \<Rightarrow> [] | Some s \<Rightarrow> s)"

definition py_or :: "string option \<Rightarrow> string option \<Rightarrow> string option" where
  "py_or a b = (if truthy a then a else b)"

text \<open>
  \<open>str.split()\<close> without arguments: the maximal runs of non-whitespace, in order.
  The first argument is the word being read.
\<close>

fun split_from :: "string \<Rightarrow> string \<Rightarrow> string list" where
  "split_from w [] = (if w = [] then [] else [w])"
| "split_from w (c # cs) =
     (if is_space c
      then (if w = [] then split_from [] cs else w # split_from [] cs)
      else split_from (w @ [c]) cs)"

definition py_split :: "string \<Rightarrow> string list" where
  "py_split s = split_from [] s"

fun py_join :: "string \<Rightarrow> string list \<Rightarrow> string" where
  "py_join sep [] = []"
| "py_join sep [w] = w"
| "py_join sep (w # v # ws) = w @ sep @ py_join sep (v # ws)"

text \<open>\<open>normalize_text(t)\<close>: \<open>" ".join(t.split()) if t else ""\<close>.\<close>

definition normalize_text :: "string option \<Rightarrow> string" where
  "normalize_text t = (if truthy t then py_join '' '' (py_split (the t)) else [])"

text \<open>\<open>sub in s\<close> on strings.\<close>

fun starts_with :: "string \<Rightarrow> string \<Rightarrow> bool" where
  "starts_with [] s = True"
| "starts_with (p # ps) [] = False"
| "starts_with (p # ps) (c # cs) = (p = c \<and> starts_with ps cs)"

fun contains :: "string \<Rightarrow> string \<Rightarrow> bool" where
  "contains sub [] = (sub = [])"
| "contains sub (c # cs) = (starts_with sub (c # cs) \<or> contains sub cs)"

section \<open>Regular expressions of the experience patterns\<close>

text \<open>
  The four patterns are sequences of quantified character classes, two of them
  captured as groups. \<open>Rep p lo hi\<close> is the greedy quantifier \<open>{lo,hi}\<close> on the class
  \<open>p\<close> (\<open>hi = None\<close>: unbounded); \<open>Grp\<close> is the same inside a capturing group.
\<close>

datatype atom =
    Rep "char \<Rightarrow> bool" nat "nat option"
  | Grp "char \<Rightarrow> bool" nat "nat option"

fun atom_class :: "atom \<Rightarrow> char \<Rightarrow> bool" where
  "atom_class (Rep p lo hi) = p"
| "atom_class (Grp p lo hi) = p"

fun atom_lo :: "atom \<Rightarrow> nat" where
  "atom_lo (Rep p lo hi) = lo"
| "atom_lo (Grp p lo hi) = lo"

fun atom_hi :: "atom \<Rightarrow> nat option" where
  "atom_hi (Rep p lo hi) = hi"
| "atom_hi (Grp p lo hi) = hi"

fun capture :: "atom \<Rightarrow> string \<Rightarrow> string list" where
  "capture (Rep p lo hi) u = []"
| "capture (Grp p lo hi) u = [u]"

text \<open>
  The lengths a greedy quantifier may consume at the head of \<open>s\<close>, in the order the
  backtracking matcher tries them: longest first.
\<close>

definition reach :: "atom \<Rightarrow> string \<Rightarrow> nat" where
  "reach a s =
     (let m = length (takeWhile (atom_class a) s)
      in case atom_hi a of None \<Rightarrow> m | Some h \<Rightarrow> min h m)"

definition cands :: "atom \<Rightarrow> string \<Rightarrow> nat list" where
  "cands a s = rev [atom_lo a ..< Suc (reach a s)]"

text \<open>
  All matches of a pattern anchored at the head of \<open>s\<close>, as the lists of captured
  groups, in the matcher's order of preference.
\<close>

primrec match_at :: "atom list \<Rightarrow> string \<Rightarrow> string list list" where
  "match_at [] s = [[]]"
| "match_at (a # as) s =
     concat (map (\<lambda>k. map (\<lambda>gs. capture a (take k s) @ gs) (match_at as (drop k s)))
                 (cands a s))"

text \<open>\<open>re.match\<close>: the preferred match at the head of \<open>s\<close>, if there is one.\<close>

definition re_match :: "atom list \<Rightarrow> string \<Rightarrow> string list option" where
  "re_match pat s = (case match_at pat s of [] \<Rightarrow> None | m # ms \<Rightarrow> Some m)"

text \<open>\<open>re.search\<close>: the match at the leftmost position that has one.\<close>

fun re_search :: "atom list \<Rightarrow> string \<Rightarrow> string list option" where
  "re_search pat [] = re_match pat []"
| "re_search pat (c # cs) =
     (case re_match pat (c # cs) of None \<Rightarrow> re_search pat cs | Some m \<Rightarrow> Some m)"

definition lit :: "char \<Rightarrow> atom" where
  "lit c = Rep (\<lambda>x. x = c) 1 (Some 1)"

definition lits :: "string \<Rightarrow> atom list" where
  "lits s = map lit s"

text \<open>
  The class \<open>[-...]\<close> of the first pattern holds the hyphen and the three code
  points U+00E2, U+20AC, U+201C; the last two are outside the modelled range.
\<close>

definition is_dash :: "char \<Rightarrow> bool" where
  "is_dash c = (c = CHR ''-'' \<or> c = CHR 0xE2)"

definition years_tail :: "atom list" where
  "years_tail = Rep is_space 0 None # lits ''year'' @ [Rep (\<lambda>x. x = CHR ''s'') 0 (Some 1)]"

text \<open>\<open>(\d{1,2})\s*[-...]\s*(\d{1,2})\s*years?\<close>\<close>

definition pat_range :: "atom list" where
  "pat_range =
     [Grp is_digit 1 (Some 2), Rep is_space 0 None, Rep is_dash 1 (Some 1),
      Rep is_space 0 None, Grp is_digit 1 (Some 2)] @ years_tail"

text \<open>\<open>(\d{1,2})\s*\+\s*years?\<close>\<close>

definition pat_plus :: "atom list" where
  "pat_plus =
     [Grp is_digit 1 (Some 2), Rep is_space 0 None, lit CHR ''+''] @ years_tail"

text \<open>\<open>minimum\s+of\s+(\d{1,2})\s*years?\<close>\<close>

definition pat_minimum :: "atom list" where
  "pat_minimum =
     lits ''minimum'' @ [Rep is_space 1 None] @ lits ''of'' @
     [Rep is_space 1 None, Grp is_digit 1 (Some 2)] @ years_tail"

text \<open>\<open>(\d{1,2})\s*years?\<close>\<close>

definition pat_bare :: "atom list" where
  "pat_bare = [Grp is_digit 1 (Some 2)] @ years_tail"

text \<open>\<open>int(s)\<close> on a string of decimal digits.\<close>

definition py_int :: "string \<Rightarrow> int" where
  "py_int s = foldl (\<lambda>a c. 10 * a + (int (of_char c) - 48)) 0 s"

text \<open>\<open>str(n)\<close> on a natural number: its decimal numeral.\<close>

fun py_str :: "nat \<Rightarrow> string" where
  "py_str n =
     (if n < 10 then [char_of (48 + n)]
      else py_str (n div 10) @ [char_of (48 + n mod 10)])"

text \<open>\<open>m.group(i)\<close> of a match with its captured groups \<open>gs\<close>.\<close>

definition match_group :: "string list \<Rightarrow> nat \<Rightarrow> string" where
  "match_group gs i = gs ! (i - 1)"

section \<open>Text heuristics\<close>

definition parse_experience_text :: "string option \<Rightarrow> int option \<times> int option" where
  "parse_experience_text text =
     (if \<not> truthy text then (None, None)
      else
        let t = lower (the text) in
        case re_search pat_range t of
          Some m \<Rightarrow> (Some (py_int (match_group m 1)), Some (py_int (match_group m 2)))
        | None \<Rightarrow>
        (case re_search pat_plus t of
          Some m \<Rightarrow> (Some (py_int (match_group m 1)), None)
        | None \<Rightarrow>
        (case re_search pat_minimum t of
          Some m \<Rightarrow> (Some (py_int (match_group m 1)), None)
        | None \<Rightarrow>
        (case re_search pat_bare t of
          Some m \<Rightarrow> (Some (py_int (match_group m 1)), Some (py_int (match_group m 1)))
        | None \<Rightarrow> (None, None)))))"

definition MIN_YEARS :: int where
  "MIN_YEARS = 2"

definition MAX_YEARS :: int where
  "MAX_YEARS = 6"

definition experience_matches :: "int option \<Rightarrow> int option \<Rightarrow> bool" where
  "experience_matches min_y max_y =
     (if min_y = None \<and> max_y = None then True
      else if min_y \<noteq> None \<and> max_y \<noteq> None
        then \<not> (the max_y < MIN_YEARS \<or> the min_y > MAX_YEARS)
      else if min_y \<noteq> None then the min_y \<le> MAX_YEARS
      else if max_y \<noteq> None then the max_y \<ge> MIN_YEARS
      else False)"

text \<open>The \<open>return\<close> statement at which \<open>experience_matches\<close> leaves, in source order.\<close>

datatype exit_point = NoRequirement | BothPresent | OnlyMin | OnlyMax | Fallthrough

definition experience_exit :: "int option \<Rightarrow> int option \<Rightarrow> exit_point" where
  "experience_exit min_y max_y =
     (if min_y = None \<and> max_y = None then NoRequirement
      else if min_y \<noteq> None \<and> max_y \<noteq> None then BothPresent
      else if min_y \<noteq> None then OnlyMin
      else if max_y \<noteq> None then OnlyMax
      else Fallthrough)"

definition location_matches :: "string option \<Rightarrow> bool" where
  "location_matches location_text =
     (if \<not> truthy location_text then True
      else
        let t = lower (the location_text) in
        if contains ''remote'' t \<or> contains ''india'' t \<or> contains ''india remote'' t
           \<or> contains ''pan india'' t
        then True else False)"

definition KEYWORDS :: "string list" where
  "KEYWORDS =
     [''DevOps Engineer'', ''Cloud Engineer'', ''Site Reliability Engineer'',
      ''Platform Engineer'', ''Infrastructure Engineer'', ''AWS Engineer'',
      ''Azure DevOps Engineer'', ''Kubernetes Engineer'']"

text \<open>The \<open>for kw in keywords\<close> loop of \<open>text_contains_keywords\<close>.\<close>

fun any_keyword :: "string \<Rightarrow> string list \<Rightarrow> bool" where
  "any_keyword t [] = False"
| "any_keyword t (kw # kws) = (if contains (lower kw) t then True else any_keyword t kws)"

definition text_contains_keywords :: "string option \<Rightarrow> string list \<Rightarrow> bool" where
  "text_contains_keywords text keywords =
     (let t = lower (or_empty text) in
      if any_keyword t keywords then True
      else if contains ''devops'' t \<or> contains ''cloud'' t \<or> contains ''sre'' t
              \<or> contains ''site reliability'' t
      then True else False)"

section \<open>Job records\<close>

text \<open>
  A job is the dictionary the scrapers build: six keys, each holding a string or
  \<open>None\<close>.
\<close>

record job =
  title :: "string option"
  company :: "string option"
  location :: "string option"
  link :: "string option"
  source :: "string option"
  snippet :: "string option"

section \<open>Scrapers\<close>





















section \<open>Orchestration\<close>









section \<open>Filter\<close>

definition combined_text :: "job \<Rightarrow> string" where
  "combined_text j =
     normalize_text
       (Some (py_join '' ''
          [or_empty (title j), or_empty (company j), or_empty (location j),
           or_empty (snippet j)]))"

text \<open>
  The body of the loop of \<open>filter_jobs\<close> ends in one of four ways: one of its three
  \<open>continue\<close> statements, or the \<open>append\<close>.
\<close>

datatype verdict = NoKeyword | ExperienceMismatch | LocationMismatch | Keep

definition filter_step :: "job \<Rightarrow> verdict" where
  "filter_step j =
     (let text = combined_text j in
      if \<not> text_contains_keywords (Some text) KEYWORDS then NoKeyword
      else
        (case parse_experience_text (Some text) of
           (min_y, max_y) \<Rightarrow>
             if \<not> experience_matches min_y max_y then ExperienceMismatch
             else if \<not> location_matches (py_or (location j) (snippet j))
               then LocationMismatch
             else Keep))"

fun filter_loop :: "job list \<Rightarrow> job list \<Rightarrow> job list" where
  "filter_loop [] filtered = filtered"
| "filter_loop (j # js) filtered =
     (case filter_step j of
        Keep \<Rightarrow> filter_loop js (filtered @ [j])
      | NoKeyword \<Rightarrow> filter_loop js filtered
      | ExperienceMismatch \<Rightarrow> filter_loop js filtered
      | LocationMismatch \<Rightarrow> filter_loop js filtered)"

definition filter_jobs :: "job list \<Rightarrow> job list" where
  "filter_jobs raw_jobs = filter_loop raw_jobs []"

section \<open>Delivery\<close>














section \<open>Properties of the text utilities\<close>

declare py_str.simps [simp del]

lemma split_from_words:
  "\<forall>c \<in> set w. \<not> is_space c \<Longrightarrow> x \<in> set (split_from w s)
     \<Longrightarrow> x \<noteq> [] \<and> (\<forall>c \<in> set x. \<not> is_space c)"
proof (induction s arbitrary: w)
  case Nil
  then show ?case by (cases "w = []") simp_all
next
  case (Cons c cs)
  show ?case
  proof (cases "is_space c")
    case True
    with Cons.prems(2) have "x = w \<and> w \<noteq> [] \<or> x \<in> set (split_from [] cs)"
      by (cases "w = []") simp_all
    then show ?thesis
    proof
      assume "x = w \<and> w \<noteq> []"
      with Cons.prems(1) show ?thesis by simp
    next
      assume "x \<in> set (split_from [] cs)"
      with Cons.IH [of "[]"] show ?thesis by simp
    qed
  next
    case False
    with Cons.prems(2) have "x \<in> set (split_from (w @ [c]) cs)" by simp
    moreover from False Cons.prems(1) have "\<forall>d \<in> set (w @ [c]). \<not> is_space d" by simp
    ultimately show ?thesis by (rule Cons.IH [rotated])
  qed
qed

lemma split_from_word:
  "\<forall>c \<in> set v. \<not> is_space c \<Longrightarrow> split_from w (v @ s) = split_from (w @ v) s"
  by (induction v arbitrary: w) auto

lemma space_is_space: "is_space CHR '' ''"
  by (simp add: is_space_def)

lemma split_join:
  "\<forall>x \<in> set ws. x \<noteq> [] \<and> (\<forall>c \<in> set x. \<not> is_space c)
     \<Longrightarrow> split_from [] (py_join '' '' ws) = ws"
proof (induction "'' ''" ws rule: py_join.induct)
  case 1
  then show ?case by simp
next
  case (2 w)
  then have "split_from [] (w @ []) = split_from ([] @ w) []"
    by (intro split_from_word) simp
  with 2 show ?case by simp
next
  case (3 w v ws)
  have "split_from [] (w @ '' '' @ py_join '' '' (v # ws))
        = split_from ([] @ w) ('' '' @ py_join '' '' (v # ws))"
    using 3 by (intro split_from_word) simp
  also have "\<dots> = w # split_from [] (py_join '' '' (v # ws))"
    using 3 by (simp add: space_is_space)
  finally show ?case using 3 by simp
qed

lemma py_split_words:
  "x \<in> set (py_split s) \<Longrightarrow> x \<noteq> [] \<and> (\<forall>c \<in> set x. \<not> is_space c)"
  unfolding py_split_def by (rule split_from_words [of "[]"]) simp_all

lemma py_split_join: "py_split (py_join '' '' (py_split s)) = py_split s"
proof -
  have "split_from [] (py_join '' '' (py_split s)) = py_split s"
    by (rule split_join) (simp add: py_split_words)
  then show ?thesis by (simp only: py_split_def)
qed

lemma normalize_text_Some: "normalize_text (Some s) = py_join '' '' (py_split s)"
  by (cases s) (simp_all add: normalize_text_def truthy_def py_split_def)


text \<open>
  Claim C8. The whitespace normaliser is idempotent: normalising a normalised text
  changes nothing; and \<open>normalize_text\<close> of \<open>None\<close> and of the empty string is the
  empty string.
\<close>

theorem normalize_text_idempotent:
  "normalize_text (Some (normalize_text t)) = normalize_text t
   \<and> normalize_text None = []
   \<and> normalize_text (Some []) = []"
proof (intro conjI)
  show "normalize_text None = []" by (simp add: normalize_text_def truthy_def)
  show "normalize_text (Some []) = []" by (simp add: normalize_text_def truthy_def)
  show "normalize_text (Some (normalize_text t)) = normalize_text t"
  proof (cases t)
    case None
    then show ?thesis by (simp add: normalize_text_def truthy_def)
  next
    case (Some s)
    then show ?thesis by (simp only: normalize_text_Some py_split_join)
  qed
qed

section \<open>Properties of the regular expression matcher\<close>

lemma reach_greedy:
  assumes "\<forall>c \<in> set u. atom_class a c"
    and "case atom_hi a of None \<Rightarrow> True | Some h \<Rightarrow> length u \<le> h"
    and "atom_hi a = Some (length u) \<or> v = [] \<or> \<not> atom_class a (hd v)"
  shows "reach a (u @ v) = length u"
proof -
  from assms(1) have tw: "takeWhile (atom_class a) (u @ v) = u @ takeWhile (atom_class a) v"
    by (simp add: takeWhile_append2)
  show ?thesis
  proof (cases "atom_hi a = Some (length u)")
    case True
    then show ?thesis by (simp add: reach_def tw)
  next
    case False
    with assms(3) have "takeWhile (atom_class a) v = []"
      by (cases v) auto
    with assms(2) show ?thesis by (simp add: reach_def tw split: option.splits)
  qed
qed

lemma re_match_greedy:
  assumes "\<forall>c \<in> set u. atom_class a c"
    and "atom_lo a \<le> length u"
    and "case atom_hi a of None \<Rightarrow> True | Some h \<Rightarrow> length u \<le> h"
    and "atom_hi a = Some (length u) \<or> v = [] \<or> \<not> atom_class a (hd v)"
    and "re_match as v = Some m"
  shows "re_match (a # as) (u @ v) = Some (capture a u @ m)"
proof -
  have r: "reach a (u @ v) = length u"
    using assms(1,3,4) by (rule reach_greedy)
  from assms(2) have "[atom_lo a ..< Suc (length u)] = [atom_lo a ..< length u] @ [length u]"
    by simp
  then have c: "cands a (u @ v) = length u # rev [atom_lo a ..< length u]"
    by (simp add: cands_def r)
  from assms(5) obtain ms where ms: "match_at as v = m # ms"
    by (auto simp: re_match_def split: list.splits)
  show ?thesis
    by (simp add: re_match_def c ms)
qed

lemma re_match_no_start:
  assumes "1 \<le> atom_lo a" and "s = [] \<or> \<not> atom_class a (hd s)"
  shows "re_match (a # as) s = None"
proof -
  from assms(2) have "takeWhile (atom_class a) s = []" by (cases s) auto
  then have "reach a s = 0" by (simp add: reach_def split: option.splits)
  with assms(1) have "cands a s = []" by (simp add: cands_def)
  then show ?thesis by (simp add: re_match_def)
qed

lemma re_search_skip:
  assumes "1 \<le> atom_lo a" and "\<forall>c \<in> set pre. \<not> atom_class a c"
  shows "re_search (a # as) (pre @ s) = re_search (a # as) s"
  using assms(2)
proof (induction pre)
  case Nil
  then show ?case by simp
next
  case (Cons c pre)
  have "re_match (a # as) (c # pre @ s) = None"
    using assms(1) Cons.prems by (intro re_match_no_start) simp_all
  with Cons show ?case by simp
qed

lemma re_search_here: "re_match pat s = Some m \<Longrightarrow> re_search pat s = Some m"
  by (cases s) simp_all

lemma re_match_opt_end: "re_match [Rep p 0 hi] s = Some []"
proof -
  have "cands (Rep p 0 hi) s = reach (Rep p 0 hi) s # rev [0 ..< reach (Rep p 0 hi) s]"
    by (simp add: cands_def)
  then show ?thesis by (simp add: re_match_def)
qed

lemma of_char_shift: "n \<le> 223 \<Longrightarrow> of_char (char_of (n + 32 :: nat)) = n + 32"
  by simp

lemma lower_char_keeps_digit: "is_digit (lower_char c) = is_digit c"
proof (cases "(65 \<le> (of_char c :: nat) \<and> (of_char c :: nat) \<le> 90)
              \<or> (192 \<le> (of_char c :: nat) \<and> (of_char c :: nat) \<le> 222 \<and> (of_char c :: nat) \<noteq> 215)")
  case True
  then have "(of_char c :: nat) \<le> 223" by auto
  then have "(of_char (char_of ((of_char c :: nat) + 32)) :: nat) = of_char c + 32"
    by (rule of_char_shift)
  with True show ?thesis
    by (auto simp: lower_char_def is_digit_def Let_def)
next
  case False
  then have "lower_char c = c" by (auto simp: lower_char_def Let_def)
  then show ?thesis by simp
qed

lemma lower_char_fixed:
  "is_digit c \<or> is_space c \<or> is_dash c \<Longrightarrow> lower_char c = c"
  by (auto simp: lower_char_def is_digit_def is_space_def is_dash_def Let_def)

lemma lower_fixed: "\<forall>c \<in> set s. is_digit c \<or> is_space c \<or> is_dash c \<Longrightarrow> lower s = s"
  by (induction s) (simp_all add: lower_def lower_char_fixed)

lemma lower_append: "lower (a @ b) = lower a @ lower b"
  by (simp add: lower_def)

lemma lower_no_digit: "\<forall>c \<in> set s. \<not> is_digit c \<Longrightarrow> \<forall>c \<in> set (lower s). \<not> is_digit c"
  by (simp add: lower_def lower_char_keeps_digit)

lemma space_not_digit: "is_space c \<Longrightarrow> \<not> is_digit c"
  by (auto simp: is_space_def is_digit_def Let_def)

lemma dash_not_digit: "is_dash c \<Longrightarrow> \<not> is_digit c"
  by (auto simp: is_dash_def is_digit_def Let_def)

lemma dash_not_space: "is_dash c \<Longrightarrow> \<not> is_space c"
  by (auto simp: is_dash_def is_space_def Let_def)

lemma y_not_space: "\<not> is_space CHR ''y''" and y_not_digit: "\<not> is_digit CHR ''y''"
  by (simp_all add: is_space_def is_digit_def)

lemma re_match_lit:
  assumes "re_match as v = Some m"
  shows "re_match (lit ch # as) (ch # v) = Some m"
proof -
  have "re_match (Rep (\<lambda>x. x = ch) 1 (Some 1) # as) ([ch] @ v)
        = Some (capture (Rep (\<lambda>x. x = ch) 1 (Some 1)) [ch] @ m)"
    by (rule re_match_greedy) (use assms in simp_all)
  then show ?thesis by (simp add: lit_def)
qed

lemma re_match_dash:
  assumes "is_dash c" and "re_match as v = Some m"
  shows "re_match (Rep is_dash 1 (Some 1) # as) (c # v) = Some m"
proof -
  have "re_match (Rep is_dash 1 (Some 1) # as) ([c] @ v)
        = Some (capture (Rep is_dash 1 (Some 1)) [c] @ m)"
    by (rule re_match_greedy) (use assms in simp_all)
  then show ?thesis by simp
qed

lemma re_match_spaces:
  assumes "\<forall>c \<in> set u. is_space c" and "v = [] \<or> \<not> is_space (hd v)"
    and "re_match as v = Some m"
  shows "re_match (Rep is_space 0 None # as) (u @ v) = Some m"
proof -
  have "re_match (Rep is_space 0 None # as) (u @ v)
        = Some (capture (Rep is_space 0 None) u @ m)"
    by (rule re_match_greedy) (use assms in simp_all)
  then show ?thesis by simp
qed

lemma re_match_digits:
  assumes "\<forall>c \<in> set u. is_digit c" and "1 \<le> length u" and "length u \<le> 2"
    and "v = [] \<or> \<not> is_digit (hd v)" and "re_match as v = Some m"
  shows "re_match (Grp is_digit 1 (Some 2) # as) (u @ v) = Some (u # m)"
proof -
  have "re_match (Grp is_digit 1 (Some 2) # as) (u @ v)
        = Some (capture (Grp is_digit 1 (Some 2)) u @ m)"
    by (rule re_match_greedy) (use assms in simp_all)
  then show ?thesis by simp
qed

lemma re_match_years_tail:
  assumes "\<forall>c \<in> set s3. is_space c"
  shows "re_match years_tail (s3 @ ''year'' @ rest) = Some []"
proof -
  have "re_match [Rep (\<lambda>x. x = CHR ''s'') 0 (Some 1)] rest = Some []"
    by (rule re_match_opt_end)
  then have "re_match (lit CHR ''r'' # [Rep (\<lambda>x. x = CHR ''s'') 0 (Some 1)])
               (CHR ''r'' # rest) = Some []"
    by (rule re_match_lit)
  then have "re_match (lit CHR ''a'' # lit CHR ''r'' # [Rep (\<lambda>x. x = CHR ''s'') 0 (Some 1)])
               (CHR ''a'' # CHR ''r'' # rest) = Some []"
    by (rule re_match_lit)
  then have "re_match (lit CHR ''e'' # lit CHR ''a'' # lit CHR ''r''
                         # [Rep (\<lambda>x. x = CHR ''s'') 0 (Some 1)])
               (CHR ''e'' # CHR ''a'' # CHR ''r'' # rest) = Some []"
    by (rule re_match_lit)
  then have y: "re_match (lit CHR ''y'' # lit CHR ''e'' # lit CHR ''a'' # lit CHR ''r''
                         # [Rep (\<lambda>x. x = CHR ''s'') 0 (Some 1)])
               (CHR ''y'' # CHR ''e'' # CHR ''a'' # CHR ''r'' # rest) = Some []"
    by (rule re_match_lit)
  have "re_match (Rep is_space 0 None # lit CHR ''y'' # lit CHR ''e'' # lit CHR ''a''
                    # lit CHR ''r'' # [Rep (\<lambda>x. x = CHR ''s'') 0 (Some 1)])
          (s3 @ CHR ''y'' # CHR ''e'' # CHR ''a'' # CHR ''r'' # rest) = Some []"
    using assms _ y by (rule re_match_spaces) (simp add: y_not_space)
  then show ?thesis by (simp add: years_tail_def lits_def)
qed

lemma re_match_pat_range:
  assumes d1: "\<forall>c \<in> set d1. is_digit c" "1 \<le> length d1" "length d1 \<le> 2"
    and d2: "\<forall>c \<in> set d2. is_digit c" "1 \<le> length d2" "length d2 \<le> 2"
    and sp: "\<forall>c \<in> set s1. is_space c" "\<forall>c \<in> set s2. is_space c" "\<forall>c \<in> set s3. is_space c"
    and dash: "is_dash c"
  shows "re_match pat_range (d1 @ s1 @ c # s2 @ d2 @ s3 @ ''year'' @ rest) = Some [d1, d2]"
proof -
  let ?tail = "s3 @ ''year'' @ rest"
  have t: "re_match years_tail ?tail = Some []"
    using sp(3) by (rule re_match_years_tail)
  have nd: "\<not> is_digit (hd ?tail)"
    using sp(3) by (cases s3) (simp_all add: y_not_digit space_not_digit)
  have g2: "re_match (Grp is_digit 1 (Some 2) # years_tail) (d2 @ ?tail) = Some [d2]"
    using d2 _ t by (rule re_match_digits) (use nd in simp)
  from d2(2) obtain x xs where d2c: "d2 = x # xs" by (cases d2) simp_all
  with d2(1) have "is_digit (hd (d2 @ ?tail))" by simp
  then have ns: "\<not> is_space (hd (d2 @ ?tail))" using space_not_digit by blast
  have r2: "re_match (Rep is_space 0 None # Grp is_digit 1 (Some 2) # years_tail)
              (s2 @ d2 @ ?tail) = Some [d2]"
    using sp(2) _ g2 by (rule re_match_spaces) (use ns in simp)
  have r3: "re_match (Rep is_dash 1 (Some 1) # Rep is_space 0 None
                        # Grp is_digit 1 (Some 2) # years_tail)
              (c # s2 @ d2 @ ?tail) = Some [d2]"
    using dash r2 by (rule re_match_dash)
  have r4: "re_match (Rep is_space 0 None # Rep is_dash 1 (Some 1) # Rep is_space 0 None
                        # Grp is_digit 1 (Some 2) # years_tail)
              (s1 @ c # s2 @ d2 @ ?tail) = Some [d2]"
    using sp(1) _ r3 by (rule re_match_spaces) (simp add: dash dash_not_space)
  have "\<not> is_digit (hd (s1 @ c # s2 @ d2 @ ?tail))"
    using sp(1) dash by (cases s1) (simp_all add: space_not_digit dash_not_digit)
  then have nd1: "s1 @ c # s2 @ d2 @ ?tail = [] \<or> \<not> is_digit (hd (s1 @ c # s2 @ d2 @ ?tail))"
    by (rule disjI2)
  have "re_match (Grp is_digit 1 (Some 2) # Rep is_space 0 None # Rep is_dash 1 (Some 1)
                        # Rep is_space 0 None # Grp is_digit 1 (Some 2) # years_tail)
              (d1 @ s1 @ c # s2 @ d2 @ ?tail) = Some [d1, d2]"
    using d1 nd1 r4 by (rule re_match_digits)
  then show ?thesis by (simp add: pat_range_def)
qed

lemma py_str_one: "n < 10 \<Longrightarrow> py_str n = [char_of (48 + n)]"
  by (subst py_str.simps) simp

lemma py_str_two:
  "10 \<le> n \<Longrightarrow> n < 100 \<Longrightarrow> py_str n = [char_of (48 + n div 10), char_of (48 + n mod 10)]"
proof -
  assume a: "10 \<le> n" "n < 100"
  then have "n div 10 < 10" by simp
  then have "py_str (n div 10) = [char_of (48 + n div 10)]" by (rule py_str_one)
  with a show ?thesis by (subst py_str.simps) simp
qed

lemma digit_char:
  assumes "k < 10"
  shows "is_digit (char_of (48 + k))" and "int (of_char (char_of (48 + k))) - 48 = int k"
proof -
  from assms have "(of_char (char_of (48 + k)) :: nat) = 48 + k" by simp
  then show "is_digit (char_of (48 + k))" and "int (of_char (char_of (48 + k))) - 48 = int k"
    using assms by (simp_all add: is_digit_def)
qed

lemma py_str_numeral:
  assumes "n < 100"
  shows "\<forall>c \<in> set (py_str n). is_digit c" and "1 \<le> length (py_str n)"
    and "length (py_str n) \<le> 2" and "py_int (py_str n) = int n"
proof -
  show "\<forall>c \<in> set (py_str n). is_digit c"
  proof (cases "n < 10")
    case True
    then show ?thesis by (simp add: py_str_one digit_char(1))
  next
    case False
    with assms have "n div 10 < 10" "n mod 10 < 10" by simp_all
    with False assms show ?thesis by (simp add: py_str_two digit_char(1))
  qed
  show "1 \<le> length (py_str n)"
    using assms by (cases "n < 10") (simp_all add: py_str_one py_str_two)
  show "length (py_str n) \<le> 2"
    using assms by (cases "n < 10") (simp_all add: py_str_one py_str_two)
  show "py_int (py_str n) = int n"
  proof (cases "n < 10")
    case True
    then show ?thesis by (simp add: py_str_one py_int_def digit_char(2))
  next
    case False
    with assms have d: "n div 10 < 10" "n mod 10 < 10" by simp_all
    have "py_int (py_str n) = 10 * int (n div 10) + int (n mod 10)"
      using False assms d by (simp add: py_str_two py_int_def digit_char(2))
    also have "\<dots> = int n" by presburger
    finally show ?thesis .
  qed
qed

lemma lower_Cons: "lower (c # s) = lower_char c # lower s"
  by (simp add: lower_def)

lemma re_match_hit: "re_match pat s = Some m \<Longrightarrow> m \<in> set (match_at pat s)"
  by (auto simp: re_match_def split: list.splits)

lemma re_search_hit: "re_search pat s = Some m \<Longrightarrow> \<exists>s'. m \<in> set (match_at pat s')"
proof (induction s)
  case Nil
  then show ?case using re_match_hit by auto
next
  case (Cons c cs)
  show ?case
  proof (cases "re_match pat (c # cs)")
    case None
    with Cons show ?thesis by simp
  next
    case (Some m')
    with Cons.prems have "re_match pat (c # cs) = Some m" by simp
    then show ?thesis using re_match_hit by blast
  qed
qed

lemma cands_bounds:
  assumes "k \<in> set (cands a s)"
  shows "atom_lo a \<le> k" and "k \<le> length (takeWhile (atom_class a) s)"
    and "atom_hi a = Some h \<Longrightarrow> k \<le> h"
  using assms by (auto simp: cands_def reach_def Let_def split: option.splits)

lemma take_class:
  assumes "k \<le> length (takeWhile p (s :: string))"
  shows "\<forall>c \<in> set (take k s). p c" and "length (take k s) = k"
proof -
  have "\<And>a b :: string. k \<le> length a \<Longrightarrow> take k (a @ b) = take k a" by simp
  from this [OF assms, of "dropWhile p s"]
  have t: "take k s = take k (takeWhile p s)" by (simp only: takeWhile_dropWhile_id)
  have "set (take k (takeWhile p s)) \<subseteq> set (takeWhile p s)" by (rule set_take_subset)
  then show "\<forall>c \<in> set (take k s). p c" unfolding t by (auto dest: set_takeWhileD)
  show "length (take k s) = k" unfolding t using assms by simp
qed

lemma match_at_step:
  assumes "m \<in> set (match_at (a # as) s)"
  obtains k gs where "k \<in> set (cands a s)" and "gs \<in> set (match_at as (drop k s))"
    and "m = capture a (take k s) @ gs"
  using assms by auto

lemma match_Rep:
  assumes "\<exists>s. m \<in> set (match_at (Rep p lo hi # as) s)"
  shows "\<exists>s'. m \<in> set (match_at as s')"
proof -
  from assms obtain s where "m \<in> set (match_at (Rep p lo hi # as) s)" by blast
  then obtain k gs where "gs \<in> set (match_at as (drop k s))"
    and "m = capture (Rep p lo hi) (take k s) @ gs"
    by (rule match_at_step)
  then show ?thesis by auto
qed

lemma match_Grp:
  assumes "\<exists>s. m \<in> set (match_at (Grp p lo (Some h) # as) s)"
  shows "\<exists>g gs. m = g # gs \<and> (\<forall>c \<in> set g. p c) \<and> lo \<le> length g \<and> length g \<le> h
                \<and> (\<exists>s'. gs \<in> set (match_at as s'))"
proof -
  let ?a = "Grp p lo (Some h)"
  from assms obtain s where "m \<in> set (match_at (?a # as) s)" by blast
  then obtain k gs where k: "k \<in> set (cands ?a s)"
    and gs: "gs \<in> set (match_at as (drop k s))"
    and m: "m = capture ?a (take k s) @ gs"
    by (rule match_at_step)
  from cands_bounds [OF k] have b: "lo \<le> k" "k \<le> length (takeWhile p s)" "k \<le> h"
    by simp_all
  from take_class [OF b(2)] have "\<forall>c \<in> set (take k s). p c" "length (take k s) = k"
    by simp_all
  with b m gs show ?thesis by auto
qed

lemma match_lit: "\<exists>s. m \<in> set (match_at (lit c # as) s) \<Longrightarrow> \<exists>s'. m \<in> set (match_at as s')"
  unfolding lit_def by (rule match_Rep)

lemma match_lits:
  "\<exists>s. m \<in> set (match_at (lits w @ as) s) \<Longrightarrow> \<exists>s'. m \<in> set (match_at as s')"
proof (induction w)
  case Nil
  then show ?case by (simp add: lits_def)
next
  case (Cons c w)
  then have "\<exists>s. m \<in> set (match_at (lit c # lits w @ as) s)" by (simp add: lits_def)
  then have "\<exists>s. m \<in> set (match_at (lits w @ as) s)" by (rule match_lit)
  then show ?case by (rule Cons.IH)
qed

lemma match_years_tail:
  assumes "\<exists>s. m \<in> set (match_at years_tail s)"
  shows "m = []"
proof -
  from assms have "\<exists>s. m \<in> set (match_at (lits ''year'' @ [Rep (\<lambda>x. x = CHR ''s'') 0 (Some 1)]) s)"
    unfolding years_tail_def by (rule match_Rep)
  then have "\<exists>s. m \<in> set (match_at [Rep (\<lambda>x. x = CHR ''s'') 0 (Some 1)] s)"
    by (rule match_lits)
  then have "\<exists>s. m \<in> set (match_at [] s)" by (rule match_Rep)
  then show ?thesis by simp
qed

lemma match_digits_tail:
  assumes "\<exists>s. m \<in> set (match_at (Grp is_digit 1 (Some 2) # years_tail) s)"
  shows "\<exists>g. m = [g] \<and> (\<forall>c \<in> set g. is_digit c) \<and> 1 \<le> length g \<and> length g \<le> 2"
proof -
  from match_Grp [OF assms] obtain g gs where
    "m = g # gs" "\<forall>c \<in> set g. is_digit c" "1 \<le> length g" "length g \<le> 2"
    "\<exists>s'. gs \<in> set (match_at years_tail s')"
    by blast
  moreover from this(5) have "gs = []" by (rule match_years_tail)
  ultimately show ?thesis by simp
qed

lemma pat_bare_shape:
  "re_search pat_bare s = Some m
     \<Longrightarrow> \<exists>g. m = [g] \<and> (\<forall>c \<in> set g. is_digit c) \<and> 1 \<le> length g \<and> length g \<le> 2"
proof -
  assume "re_search pat_bare s = Some m"
  then have "\<exists>s'. m \<in> set (match_at pat_bare s')" by (rule re_search_hit)
  then have "\<exists>s. m \<in> set (match_at (Grp is_digit 1 (Some 2) # years_tail) s)"
    by (simp add: pat_bare_def)
  then show ?thesis by (rule match_digits_tail)
qed

lemma pat_minimum_shape:
  "re_search pat_minimum s = Some m
     \<Longrightarrow> \<exists>g. m = [g] \<and> (\<forall>c \<in> set g. is_digit c) \<and> 1 \<le> length g \<and> length g \<le> 2"
proof -
  assume "re_search pat_minimum s = Some m"
  then have "\<exists>s'. m \<in> set (match_at pat_minimum s')" by (rule re_search_hit)
  then have "\<exists>s. m \<in> set (match_at (lits ''minimum'' @ Rep is_space 1 None # lits ''of''
               @ Rep is_space 1 None # Grp is_digit 1 (Some 2) # years_tail) s)"
    by (simp add: pat_minimum_def)
  then have "\<exists>s. m \<in> set (match_at (Rep is_space 1 None # lits ''of''
               @ Rep is_space 1 None # Grp is_digit 1 (Some 2) # years_tail) s)"
    by (rule match_lits)
  then have "\<exists>s. m \<in> set (match_at (lits ''of''
               @ Rep is_space 1 None # Grp is_digit 1 (Some 2) # years_tail) s)"
    by (rule match_Rep)
  then have "\<exists>s. m \<in> set (match_at (Rep is_space 1 None # Grp is_digit 1 (Some 2)
               # years_tail) s)"
    by (rule match_lits)
  then have "\<exists>s. m \<in> set (match_at (Grp is_digit 1 (Some 2) # years_tail) s)"
    by (rule match_Rep)
  then show ?thesis by (rule match_digits_tail)
qed

lemma pat_plus_shape:
  "re_search pat_plus s = Some m
     \<Longrightarrow> \<exists>g. m = [g] \<and> (\<forall>c \<in> set g. is_digit c) \<and> 1 \<le> length g \<and> length g \<le> 2"
proof -
  assume "re_search pat_plus s = Some m"
  then have "\<exists>s'. m \<in> set (match_at pat_plus s')" by (rule re_search_hit)
  then have "\<exists>s. m \<in> set (match_at (Grp is_digit 1 (Some 2) # Rep is_space 0 None
               # lit CHR ''+'' # years_tail) s)"
    by (simp add: pat_plus_def)
  from match_Grp [OF this] obtain g gs where g:
    "m = g # gs" "\<forall>c \<in> set g. is_digit c" "1 \<le> length g" "length g \<le> 2"
    and "\<exists>s'. gs \<in> set (match_at (Rep is_space 0 None # lit CHR ''+'' # years_tail) s')"
    by blast
  from this(5) have "\<exists>s'. gs \<in> set (match_at (lit CHR ''+'' # years_tail) s')"
    by (rule match_Rep)
  then have "\<exists>s'. gs \<in> set (match_at years_tail s')" by (rule match_lit)
  then have "gs = []" by (rule match_years_tail)
  with g show ?thesis by simp
qed

lemma pat_range_shape:
  "re_search pat_range s = Some m
     \<Longrightarrow> \<exists>g1 g2. m = [g1, g2]
           \<and> (\<forall>c \<in> set g1. is_digit c) \<and> 1 \<le> length g1 \<and> length g1 \<le> 2
           \<and> (\<forall>c \<in> set g2. is_digit c) \<and> 1 \<le> length g2 \<and> length g2 \<le> 2"
proof -
  assume "re_search pat_range s = Some m"
  then have "\<exists>s'. m \<in> set (match_at pat_range s')" by (rule re_search_hit)
  then have "\<exists>s. m \<in> set (match_at (Grp is_digit 1 (Some 2) # Rep is_space 0 None
               # Rep is_dash 1 (Some 1) # Rep is_space 0 None
               # Grp is_digit 1 (Some 2) # years_tail) s)"
    by (simp add: pat_range_def)
  from match_Grp [OF this] obtain g1 gs where g1:
    "m = g1 # gs" "\<forall>c \<in> set g1. is_digit c" "1 \<le> length g1" "length g1 \<le> 2"
    and "\<exists>s'. gs \<in> set (match_at (Rep is_space 0 None # Rep is_dash 1 (Some 1)
               # Rep is_space 0 None # Grp is_digit 1 (Some 2) # years_tail) s')"
    by blast
  from this(5) have "\<exists>s'. gs \<in> set (match_at (Rep is_dash 1 (Some 1)
               # Rep is_space 0 None # Grp is_digit 1 (Some 2) # years_tail) s')"
    by (rule match_Rep)
  then have "\<exists>s'. gs \<in> set (match_at (Rep is_space 0 None # Grp is_digit 1 (Some 2)
               # years_tail) s')"
    by (rule match_Rep)
  then have "\<exists>s'. gs \<in> set (match_at (Grp is_digit 1 (Some 2) # years_tail) s')"
    by (rule match_Rep)
  then obtain g2 where "gs = [g2]" "\<forall>c \<in> set g2. is_digit c" "1 \<le> length g2" "length g2 \<le> 2"
    using match_digits_tail by blast
  with g1 show ?thesis by simp
qed

lemma match_at_no_start:
  assumes "1 \<le> atom_lo a" and "s = [] \<or> \<not> atom_class a (hd s)"
  shows "match_at (a # as) s = []"
proof -
  from assms(2) have "takeWhile (atom_class a) s = []" by (cases s) auto
  then have "reach a s = 0" by (simp add: reach_def split: option.splits)
  with assms(1) have "cands a s = []" by (simp add: cands_def)
  then show ?thesis by simp
qed

lemma match_at_blocked:
  assumes "\<And>k. k \<in> set (cands a s) \<Longrightarrow> match_at as (drop k s) = []"
  shows "match_at (a # as) s = []"
  using assms by simp

lemma re_match_None: "match_at pat s = [] \<Longrightarrow> re_match pat s = None"
  by (simp add: re_match_def)

lemma re_match_Some: "re_match pat s = Some m \<Longrightarrow> match_at pat s \<noteq> []"
  by (auto simp: re_match_def)

lemma match_at_needs_digit:
  assumes "\<forall>c \<in> set s. \<not> is_digit c"
  shows "match_at (ps @ Grp is_digit (Suc lo) hi # qs) s = []"
  using assms
proof (induction ps arbitrary: s)
  case Nil
  from Nil have "s = [] \<or> \<not> atom_class (Grp is_digit (Suc lo) hi) (hd s)"
    by (cases s) simp_all
  then have "match_at (Grp is_digit (Suc lo) hi # qs) s = []"
    by (intro match_at_no_start) simp_all
  then show ?case by simp
next
  case (Cons a ps)
  have "match_at (a # (ps @ Grp is_digit (Suc lo) hi # qs)) s = []"
  proof (rule match_at_blocked)
    fix k
    have "set (drop k s) \<subseteq> set s" by (rule set_drop_subset)
    with Cons.prems have "\<forall>c \<in> set (drop k s). \<not> is_digit c" by blast
    then show "match_at (ps @ Grp is_digit (Suc lo) hi # qs) (drop k s) = []"
      by (rule Cons.IH)
  qed
  then show ?case by simp
qed

lemma re_search_None:
  assumes "\<And>i. i \<le> length s \<Longrightarrow> re_match pat (drop i s) = None"
  shows "re_search pat s = None"
  using assms
proof (induction s)
  case Nil
  from Nil [of 0] show ?case by simp
next
  case (Cons c cs)
  from Cons.prems [of 0] have h: "re_match pat (c # cs) = None" by simp
  have "re_search pat cs = None"
  proof (rule Cons.IH)
    fix i assume "i \<le> length cs"
    with Cons.prems [of "Suc i"] show "re_match pat (drop i cs) = None" by simp
  qed
  with h show ?case by simp
qed

lemma re_search_needs_digit:
  assumes "\<forall>c \<in> set s. \<not> is_digit c"
  shows "re_search (ps @ Grp is_digit (Suc lo) hi # qs) s = None"
proof (rule re_search_None)
  fix i
  have "set (drop i s) \<subseteq> set s" by (rule set_drop_subset)
  with assms have "\<forall>c \<in> set (drop i s). \<not> is_digit c" by blast
  then have "match_at (ps @ Grp is_digit (Suc lo) hi # qs) (drop i s) = []"
    by (rule match_at_needs_digit)
  then show "re_match (ps @ Grp is_digit (Suc lo) hi # qs) (drop i s) = None"
    by (rule re_match_None)
qed

lemma re_search_skip_general:
  assumes "\<And>i. i < length u \<Longrightarrow> re_match pat (drop i u @ v) = None"
  shows "re_search pat (u @ v) = re_search pat v"
  using assms
proof (induction u)
  case Nil
  show ?case by simp
next
  case (Cons c u)
  from Cons.prems [of 0] have h: "re_match pat (c # u @ v) = None" by simp
  have "re_search pat (u @ v) = re_search pat v"
  proof (rule Cons.IH)
    fix i assume "i < length u"
    with Cons.prems [of "Suc i"] show "re_match pat (drop i u @ v) = None" by simp
  qed
  with h show ?case by simp
qed

lemma match_at_spaces_blocked:
  assumes sp: "\<forall>x \<in> set sp. is_space x"
    and c: "\<not> is_space c" "\<not> q c"
    and q: "\<And>x. is_space x \<Longrightarrow> \<not> q x" and lo: "1 \<le> lo"
  shows "match_at (Rep is_space 0 None # Rep q lo hq # as) (sp @ c # t) = []"
proof (rule match_at_blocked)
  fix k assume k: "k \<in> set (cands (Rep is_space 0 None) (sp @ c # t))"
  have tw: "takeWhile is_space (sp @ c # t) = sp"
    using sp c(1) by (simp add: takeWhile_append2)
  from cands_bounds(2) [OF k] have kl: "k \<le> length sp" by (simp add: tw)
  then have d: "drop k (sp @ c # t) = drop k sp @ c # t" by simp
  have "\<not> q (hd (drop k sp @ c # t))"
  proof (cases "drop k sp")
    case Nil
    then show ?thesis using c(2) by simp
  next
    case (Cons x xs)
    then have "x \<in> set (drop k sp)" by simp
    then have "x \<in> set sp" by (rule in_set_dropD)
    with sp have "is_space x" by simp
    then have "\<not> q x" by (rule q)
    with Cons show ?thesis by simp
  qed
  then show "match_at (Rep q lo hq # as) (drop k (sp @ c # t)) = []"
    unfolding d by (intro match_at_no_start) (use lo in simp_all)
qed

lemma match_at_digits_blocked:
  assumes ds: "\<forall>x \<in> set ds. is_digit x" and sp: "\<forall>x \<in> set sp. is_space x"
    and c: "\<not> is_digit c" "\<not> is_space c" "\<not> q c"
    and q: "\<And>x. is_space x \<Longrightarrow> \<not> q x" "\<And>x. is_digit x \<Longrightarrow> \<not> q x" and lo: "1 \<le> lo"
  shows "match_at (Grp is_digit 1 (Some 2) # Rep is_space 0 None # Rep q lo hq # as)
           (ds @ sp @ c # t) = []"
proof (rule match_at_blocked)
  fix k assume k: "k \<in> set (cands (Grp is_digit 1 (Some 2)) (ds @ sp @ c # t))"
  have "\<not> is_digit (hd (sp @ c # t))"
    using sp c(1) by (cases sp) (simp_all add: space_not_digit)
  then have "takeWhile is_digit (sp @ c # t) = []"
    by (cases "sp @ c # t") simp_all
  with ds have tw: "takeWhile is_digit (ds @ sp @ c # t) = ds"
    by (simp add: takeWhile_append2)
  from cands_bounds(2) [OF k] have kl: "k \<le> length ds" by (simp add: tw)
  then have d: "drop k (ds @ sp @ c # t) = drop k ds @ sp @ c # t" by simp
  show "match_at (Rep is_space 0 None # Rep q lo hq # as) (drop k (ds @ sp @ c # t)) = []"
  proof (cases "drop k ds")
    case Nil
    have "match_at (Rep is_space 0 None # Rep q lo hq # as) (sp @ c # t) = []"
      using sp c(2,3) q(1) lo by (rule match_at_spaces_blocked)
    with Nil show ?thesis by (simp only: d append_Nil)
  next
    case (Cons x xs)
    then have "x \<in> set (drop k ds)" by simp
    then have "x \<in> set ds" by (rule in_set_dropD)
    with ds have xd: "is_digit x" by simp
    then have xs: "\<not> is_space x" using space_not_digit by blast
    from xd have xq: "\<not> q x" by (rule q(2))
    have e: "\<forall>x \<in> set ([] :: string). is_space x" by simp
    have "match_at (Rep is_space 0 None # Rep q lo hq # as) ([] @ x # (xs @ sp @ c # t)) = []"
      using e xs xq q(1) lo by (rule match_at_spaces_blocked)
    with Cons show ?thesis by (simp only: d append_Nil append_Cons)
  qed
qed

text \<open>A stretch of digits between digit-free text that is not followed by the class q.\<close>

lemma re_search_island_blocked:
  assumes pre: "\<forall>x \<in> set pre. \<not> is_digit x"
    and ds: "\<forall>x \<in> set ds. is_digit x" and sp: "\<forall>x \<in> set sp. is_space x"
    and c: "\<not> is_digit c" "\<not> is_space c" "\<not> q c"
    and t: "\<forall>x \<in> set t. \<not> is_digit x"
    and q: "\<And>x. is_space x \<Longrightarrow> \<not> q x" "\<And>x. is_digit x \<Longrightarrow> \<not> q x" and lo: "1 \<le> lo"
  shows "re_search (Grp is_digit 1 (Some 2) # Rep is_space 0 None # Rep q lo hq # as)
           (pre @ ds @ sp @ c # t) = None"
proof -
  let ?P = "Grp is_digit 1 (Some 2) # Rep is_space 0 None # Rep q lo hq # as"
  have "re_search ?P (pre @ ds @ sp @ c # t) = re_search ?P (ds @ sp @ c # t)"
    by (rule re_search_skip) (use pre in simp_all)
  also have "re_search ?P (ds @ (sp @ c # t)) = re_search ?P (sp @ c # t)"
  proof (rule re_search_skip_general)
    fix i assume "i < length ds"
    have "set (drop i ds) \<subseteq> set ds" by (rule set_drop_subset)
    with ds have "\<forall>x \<in> set (drop i ds). is_digit x" by blast
    then have "match_at ?P (drop i ds @ sp @ c # t) = []"
      using sp c q lo by (rule match_at_digits_blocked)
    then show "re_match ?P (drop i ds @ sp @ c # t) = None" by (rule re_match_None)
  qed
  also have "re_search ?P (sp @ c # t) = None"
  proof -
    have "\<forall>x \<in> set (sp @ c # t). \<not> is_digit x"
      using sp c(1) t by (auto simp: space_not_digit)
    then have "re_search ([] @ Grp is_digit (Suc 0) (Some 2)
                 # Rep is_space 0 None # Rep q lo hq # as) (sp @ c # t) = None"
      by (rule re_search_needs_digit)
    then show ?thesis by simp
  qed
  finally show ?thesis by simp
qed

lemma re_match_spaces1:
  assumes "\<forall>c \<in> set u. is_space c" and "u \<noteq> []" and "v = [] \<or> \<not> is_space (hd v)"
    and "re_match as v = Some m"
  shows "re_match (Rep is_space 1 None # as) (u @ v) = Some m"
proof -
  from assms(2) have l: "1 \<le> length u" by (cases u) simp_all
  have "re_match (Rep is_space 1 None # as) (u @ v)
        = Some (capture (Rep is_space 1 None) u @ m)"
    by (rule re_match_greedy) (use assms l in simp_all)
  then show ?thesis by simp
qed

lemma re_match_lits: "re_match as v = Some m \<Longrightarrow> re_match (lits w @ as) (w @ v) = Some m"
proof (induction w)
  case Nil
  then show ?case by (simp add: lits_def)
next
  case (Cons c w)
  then have "re_match (lits w @ as) (w @ v) = Some m" by simp
  then have "re_match (lit c # lits w @ as) (c # w @ v) = Some m" by (rule re_match_lit)
  then show ?case by (simp add: lits_def)
qed

lemma re_match_bare_tail:
  assumes d: "\<forall>c \<in> set d. is_digit c" "1 \<le> length d" "length d \<le> 2"
    and sp: "\<forall>c \<in> set s. is_space c"
  shows "re_match (Grp is_digit 1 (Some 2) # years_tail) (d @ s @ ''year'' @ rest) = Some [d]"
proof -
  let ?tail = "s @ ''year'' @ rest"
  have t: "re_match years_tail ?tail = Some []"
    using sp by (rule re_match_years_tail)
  have nd: "\<not> is_digit (hd ?tail)"
    using sp by (cases s) (simp_all add: y_not_digit space_not_digit)
  show ?thesis
    using d _ t by (rule re_match_digits) (use nd in simp)
qed

lemma re_match_pat_bare:
  assumes d: "\<forall>c \<in> set d. is_digit c" "1 \<le> length d" "length d \<le> 2"
    and sp: "\<forall>c \<in> set s. is_space c"
  shows "re_match pat_bare (d @ s @ ''year'' @ rest) = Some [d]"
  using re_match_bare_tail [OF d sp, of rest] by (simp add: pat_bare_def)

lemma plus_char: "\<not> is_digit CHR ''+''" "\<not> is_space CHR ''+''" "\<not> is_dash CHR ''+''"
  "lower_char CHR ''+'' = CHR ''+''"
  by (simp_all add: is_digit_def is_space_def is_dash_def lower_char_def)

lemma y_char: "\<not> is_dash CHR ''y''" "CHR ''y'' \<noteq> CHR ''+''"
  by (simp_all add: is_dash_def)

lemma re_match_pat_plus:
  assumes d: "\<forall>c \<in> set d. is_digit c" "1 \<le> length d" "length d \<le> 2"
    and sp: "\<forall>c \<in> set s1. is_space c" "\<forall>c \<in> set s2. is_space c"
  shows "re_match pat_plus (d @ s1 @ CHR ''+'' # s2 @ ''year'' @ rest) = Some [d]"
proof -
  let ?tail = "s2 @ ''year'' @ rest"
  have t: "re_match years_tail ?tail = Some []"
    using sp(2) by (rule re_match_years_tail)
  have r1: "re_match (lit CHR ''+'' # years_tail) (CHR ''+'' # ?tail) = Some []"
    using t by (rule re_match_lit)
  have r2: "re_match (Rep is_space 0 None # lit CHR ''+'' # years_tail)
              (s1 @ CHR ''+'' # ?tail) = Some []"
    using sp(1) _ r1 by (rule re_match_spaces) (simp add: plus_char)
  have nd: "s1 @ CHR ''+'' # ?tail = [] \<or> \<not> is_digit (hd (s1 @ CHR ''+'' # ?tail))"
    using sp(1) by (cases s1) (simp_all add: space_not_digit plus_char)
  have "re_match (Grp is_digit 1 (Some 2) # Rep is_space 0 None # lit CHR ''+'' # years_tail)
          (d @ s1 @ CHR ''+'' # ?tail) = Some [d]"
    using d nd r2 by (rule re_match_digits)
  then show ?thesis by (simp add: pat_plus_def)
qed

lemma pat_minimum_unfold:
  "pat_minimum = lits ''minimum'' @ (Rep is_space 1 None # lits ''of''
       @ (Rep is_space 1 None # Grp is_digit 1 (Some 2) # years_tail))"
  by (simp add: pat_minimum_def)

lemma re_match_pat_minimum:
  assumes d: "\<forall>c \<in> set d. is_digit c" "1 \<le> length d" "length d \<le> 2"
    and w: "\<forall>c \<in> set w1. is_space c" "w1 \<noteq> []" "\<forall>c \<in> set w2. is_space c" "w2 \<noteq> []"
    and sp: "\<forall>c \<in> set s. is_space c"
  shows "re_match pat_minimum (''minimum'' @ w1 @ ''of'' @ w2 @ d @ s @ ''year'' @ rest)
         = Some [d]"
proof -
  let ?t0 = "d @ s @ ''year'' @ rest"
  have b: "re_match (Grp is_digit 1 (Some 2) # years_tail) ?t0 = Some [d]"
    using d sp by (rule re_match_bare_tail)
  from d(2) obtain x xs where dc: "d = x # xs" by (cases d) simp_all
  with d(1) have "is_digit (hd ?t0)" by simp
  then have ns: "?t0 = [] \<or> \<not> is_space (hd ?t0)" using space_not_digit by blast
  have r1: "re_match (Rep is_space 1 None # Grp is_digit 1 (Some 2) # years_tail)
              (w2 @ ?t0) = Some [d]"
    using w(3,4) ns b by (rule re_match_spaces1)
  have r2: "re_match (lits ''of'' @ (Rep is_space 1 None # Grp is_digit 1 (Some 2)
              # years_tail)) (''of'' @ w2 @ ?t0) = Some [d]"
    using r1 by (rule re_match_lits)
  have no: "''of'' @ w2 @ ?t0 = [] \<or> \<not> is_space (hd (''of'' @ w2 @ ?t0))"
    by (simp add: is_space_def)
  have r3: "re_match (Rep is_space 1 None # lits ''of'' @ (Rep is_space 1 None
              # Grp is_digit 1 (Some 2) # years_tail)) (w1 @ ''of'' @ w2 @ ?t0) = Some [d]"
    using w(1,2) no r2 by (rule re_match_spaces1)
  have "re_match (lits ''minimum'' @ (Rep is_space 1 None # lits ''of''
              @ (Rep is_space 1 None # Grp is_digit 1 (Some 2) # years_tail)))
          (''minimum'' @ w1 @ ''of'' @ w2 @ ?t0) = Some [d]"
    using r3 by (rule re_match_lits)
  then show ?thesis by (simp only: pat_minimum_unfold)
qed

text \<open>The text that a match consumes.\<close>

lemma match_at_split:
  assumes "match_at (a # as) s \<noteq> []"
  shows "\<exists>u v. s = u @ v \<and> (\<forall>x \<in> set u. atom_class a x) \<and> atom_lo a \<le> length u
           \<and> (\<forall>h. atom_hi a = Some h \<longrightarrow> length u \<le> h) \<and> match_at as v \<noteq> []"
proof -
  from assms have "hd (match_at (a # as) s) \<in> set (match_at (a # as) s)"
    by (rule hd_in_set)
  then obtain k gs where k: "k \<in> set (cands a s)"
    and gs: "gs \<in> set (match_at as (drop k s))"
    by (rule match_at_step)
  note b = cands_bounds [OF k]
  note tc = take_class [OF b(2)]
  have "s = take k s @ drop k s" by simp
  moreover have "\<forall>x \<in> set (take k s). atom_class a x" by (rule tc(1))
  moreover have "atom_lo a \<le> length (take k s)" using b(1) tc(2) by simp
  moreover have "\<forall>h. atom_hi a = Some h \<longrightarrow> length (take k s) \<le> h" using b(3) tc(2) by simp
  moreover have "match_at as (drop k s) \<noteq> []" using gs by auto
  ultimately show ?thesis by blast
qed

lemma match_lit_split:
  assumes "match_at (lit c # as) s \<noteq> []"
  shows "\<exists>v. s = c # v \<and> match_at as v \<noteq> []"
proof -
  from assms have "match_at (Rep (\<lambda>x. x = c) 1 (Some 1) # as) s \<noteq> []"
    unfolding lit_def .
  from match_at_split [OF this]
  obtain u v where s: "s = u @ v" and u: "\<forall>x \<in> set u. x = c" and l: "1 \<le> length u"
    and h: "length u \<le> 1" and v: "match_at as v \<noteq> []"
    by (auto simp del: match_at.simps)
  from l h obtain x where "u = [x]" by (cases u) auto
  with u have "u = [c]" by simp
  with s v show ?thesis by simp
qed

lemma match_lits_split:
  "match_at (lits w @ as) s \<noteq> [] \<Longrightarrow> \<exists>v. s = w @ v \<and> match_at as v \<noteq> []"
proof (induction w arbitrary: s)
  case Nil
  then show ?case by (simp add: lits_def)
next
  case (Cons c w)
  from Cons.prems have "match_at (lit c # lits w @ as) s \<noteq> []"
    unfolding lits_def list.map append_Cons .
  from match_lit_split [OF this]
  obtain v where s: "s = c # v" and v: "match_at (lits w @ as) v \<noteq> []"
    by blast
  from Cons.IH [OF v] obtain v' where "v = w @ v'" "match_at as v' \<noteq> []" by blast
  with s show ?case by simp
qed

lemma starts_with_append: "starts_with w (w @ v)"
  by (induction w) simp_all

lemma starts_with_cut:
  "starts_with w (a @ x # b) \<Longrightarrow> x \<notin> set w \<Longrightarrow> starts_with w a"
proof (induction w arbitrary: a)
  case Nil
  show ?case by simp
next
  case (Cons p ps)
  show ?case
  proof (cases a)
    case Nil
    with Cons.prems show ?thesis by simp
  next
    case (Cons y ys)
    with Cons.prems Cons.IH [of ys] show ?thesis by simp
  qed
qed

lemma starts_with_drop_contains: "starts_with w (drop i s) \<Longrightarrow> contains w s"
proof (induction s arbitrary: i)
  case Nil
  then show ?case by (cases w) simp_all
next
  case (Cons c cs)
  show ?case
  proof (cases i)
    case 0
    with Cons.prems show ?thesis by simp
  next
    case (Suc j)
    with Cons.prems have "starts_with w (drop j cs)" by simp
    then have "contains w cs" by (rule Cons.IH)
    then show ?thesis by simp
  qed
qed

lemma pat_minimum_needs_word:
  assumes "re_match pat_minimum s \<noteq> None"
  shows "starts_with ''minimum'' s"
proof -
  from assms have "match_at pat_minimum s \<noteq> []" by (auto simp: re_match_def)
  then have "match_at (lits ''minimum'' @ (Rep is_space 1 None # lits ''of''
       @ (Rep is_space 1 None # Grp is_digit 1 (Some 2) # years_tail))) s \<noteq> []"
    unfolding pat_minimum_unfold .
  from match_lits_split [OF this] obtain v where "s = ''minimum'' @ v" by blast
  then show ?thesis using starts_with_append [of "''minimum''" v] by simp
qed

lemma takeWhile_stop:
  assumes "\<forall>x \<in> set a. P x" and "b \<noteq> []" and "\<not> P (hd b)"
  shows "takeWhile P (a @ b) = a"
  using assms by (cases b) (simp_all add: takeWhile_append2)

lemma pat_minimum_shape_text:
  assumes "match_at pat_minimum s \<noteq> []"
  shows "\<exists>u1 u2 g v. s = (''minimum'' @ u1 @ ''of'' @ u2) @ g @ v
           \<and> (\<forall>x \<in> set u1. is_space x) \<and> (\<forall>x \<in> set u2. is_space x)
           \<and> (\<forall>x \<in> set g. is_digit x) \<and> g \<noteq> []"
proof -
  from assms have "match_at (lits ''minimum'' @ (Rep is_space 1 None # lits ''of''
       @ (Rep is_space 1 None # Grp is_digit 1 (Some 2) # years_tail))) s \<noteq> []"
    unfolding pat_minimum_unfold .
  from match_lits_split [OF this] obtain v1 where s: "s = ''minimum'' @ v1"
    and m1: "match_at (Rep is_space 1 None # lits ''of''
       @ (Rep is_space 1 None # Grp is_digit 1 (Some 2) # years_tail)) v1 \<noteq> []"
    by blast
  from match_at_split [OF m1]
  obtain u1 v2 where v1: "v1 = u1 @ v2" and u1: "\<forall>x \<in> set u1. is_space x"
    and m2: "match_at (lits ''of''
       @ (Rep is_space 1 None # Grp is_digit 1 (Some 2) # years_tail)) v2 \<noteq> []"
    by (auto simp del: match_at.simps)
  from match_lits_split [OF m2] obtain v3 where v2: "v2 = ''of'' @ v3"
    and m3: "match_at (Rep is_space 1 None # Grp is_digit 1 (Some 2) # years_tail) v3 \<noteq> []"
    by blast
  from match_at_split [OF m3]
  obtain u2 v4 where v3: "v3 = u2 @ v4" and u2: "\<forall>x \<in> set u2. is_space x"
    and m4: "match_at (Grp is_digit 1 (Some 2) # years_tail) v4 \<noteq> []"
    by (auto simp del: match_at.simps)
  from match_at_split [OF m4]
  obtain g v5 where v4: "v4 = g @ v5" and g: "\<forall>x \<in> set g. is_digit x"
    and gl: "1 \<le> length g"
    by (auto simp del: match_at.simps)
  from gl have "g \<noteq> []" by (cases g) simp_all
  moreover have "s = (''minimum'' @ u1 @ ''of'' @ u2) @ g @ v5"
    by (simp add: s v1 v2 v3 v4)
  ultimately show ?thesis using u1 u2 g by blast
qed

lemma word_chars:
  "\<forall>x \<in> set ''minimum''. \<not> is_digit x \<and> \<not> is_space x"
  "\<forall>x \<in> set ''of''. \<not> is_digit x \<and> \<not> is_space x"
  "\<forall>x \<in> set ''year''. \<not> is_digit x \<and> \<not> is_space x \<and> x \<noteq> CHR ''m''"
  by (simp_all add: is_digit_def is_space_def)

lemma pat_minimum_not_earlier:
  assumes p: "p \<noteq> []" "\<forall>x \<in> set p. \<not> is_digit x"
    and w: "\<forall>x \<in> set w1. is_space x" "\<forall>x \<in> set w2. is_space x"
    and d: "d \<noteq> []" "\<forall>x \<in> set d. is_digit x"
  shows "re_match pat_minimum (p @ ''minimum'' @ w1 @ ''of'' @ w2 @ d @ t) = None"
proof (rule ccontr)
  let ?ns = "\<lambda>x. \<not> is_space x" and ?nd = "\<lambda>x. \<not> is_digit x"
  let ?a = "p @ ''minimum'' @ w1 @ ''of'' @ w2"
  assume "re_match pat_minimum (p @ ''minimum'' @ w1 @ ''of'' @ w2 @ d @ t) \<noteq> None"
  then have "match_at pat_minimum (p @ ''minimum'' @ w1 @ ''of'' @ w2 @ d @ t) \<noteq> []"
    by (auto simp: re_match_def)
  then obtain u1 u2 g v where
    e: "p @ ''minimum'' @ w1 @ ''of'' @ w2 @ d @ t = (''minimum'' @ u1 @ ''of'' @ u2) @ g @ v"
    and u: "\<forall>x \<in> set u1. is_space x" "\<forall>x \<in> set u2. is_space x"
    and g: "\<forall>x \<in> set g. is_digit x" "g \<noteq> []"
    using pat_minimum_shape_text by blast
  let ?b = "''minimum'' @ u1 @ ''of'' @ u2"
  have e': "?a @ (d @ t) = ?b @ (g @ v)" using e by simp
  have da: "\<forall>x \<in> set ?a. ?nd x"
    using p(2) w word_chars(1,2) by (auto simp: space_not_digit)
  have db: "\<forall>x \<in> set ?b. ?nd x"
    using u word_chars(1,2) by (auto simp: space_not_digit)
  have hd1: "d @ t \<noteq> []" "\<not> ?nd (hd (d @ t))" using d by (cases d; simp)+
  have hd2: "g @ v \<noteq> []" "\<not> ?nd (hd (g @ v))" using g by (cases g; simp)+
  have "takeWhile ?nd (?a @ (d @ t)) = ?a" using da hd1 by (rule takeWhile_stop)
  moreover have "takeWhile ?nd (?b @ (g @ v)) = ?b" using db hd2 by (rule takeWhile_stop)
  ultimately have ab: "?a = ?b" using e' by simp
  have f1: "filter ?ns w1 = []" "filter ?ns w2 = []" "filter ?ns u1 = []" "filter ?ns u2 = []"
    using w u by (simp_all add: filter_empty_conv)
  have f2: "filter ?ns ''minimum'' = ''minimum''" "filter ?ns ''of'' = ''of''"
    by (simp_all add: is_space_def)
  have fa: "filter ?ns ?a = filter ?ns p @ ''minimum'' @ ''of''"
    by (simp only: filter_append f1 f2 append_Nil append_Nil2)
  have fb: "filter ?ns ?b = ''minimum'' @ ''of''"
    by (simp only: filter_append f1 f2 append_Nil append_Nil2)
  have "filter ?ns p @ ''minimum'' @ ''of'' = filter ?ns ?a" by (simp only: fa)
  also have "\<dots> = filter ?ns ?b" by (simp only: ab)
  also have "\<dots> = ''minimum'' @ ''of''" by (rule fb)
  finally have "filter ?ns p = []" by simp
  then have sp: "\<forall>x \<in> set p. is_space x" by (simp add: filter_empty_conv)
  from p(1) obtain y ys where pc: "p = y # ys" by (cases p) simp_all
  with ab have "y = CHR ''m''" by simp
  with sp pc have "is_space CHR ''m''" by simp
  then show False by (simp add: is_space_def)
qed

section \<open>Properties of the experience heuristics\<close>

text \<open>
  Claim C2. With the band \<open>(2, 6)\<close>, \<open>experience_matches\<close> accepts \<open>(None, None)\<close>;
  with both bounds present it accepts iff not (\<open>max < 2\<close> or \<open>min > 6\<close>), which for
  \<open>min \<le> max\<close> says that the closed intervals \<open>[min, max]\<close> and \<open>[2, 6]\<close> share a
  point; with only \<open>min\<close> it accepts iff \<open>min \<le> 6\<close>; with only \<open>max\<close> iff \<open>max \<ge> 2\<close>.
  So \<open>(7, 9)\<close> is rejected and \<open>(1, 3)\<close> accepted.
\<close>

theorem experience_matches_band: "MIN_YEARS = 2 \<and> MAX_YEARS = 6
  \<and> experience_matches None None = True
  \<and> experience_matches (Some mn) (Some mx) = (\<not> (mx < 2 \<or> mn > 6))
  \<and> (mn \<le> mx \<longrightarrow> experience_matches (Some mn) (Some mx) = ({mn..mx} \<inter> {2..6} \<noteq> {}))
  \<and> experience_matches (Some mn) None = (mn \<le> 6)
  \<and> experience_matches None (Some mx) = (mx \<ge> 2)
  \<and> experience_matches (Some 7) (Some 9) = False
  \<and> experience_matches (Some 1) (Some 3) = True"
proof -
  have "mn \<le> mx \<Longrightarrow> (\<not> (mx < 2 \<or> mn > 6)) = ({mn..mx} \<inter> {2..6} \<noteq> {})"
  proof
    assume a: "mn \<le> mx" "\<not> (mx < 2 \<or> mn > 6)"
    then have "max mn 2 \<in> {mn..mx} \<inter> {2..6}" by auto
    then show "{mn..mx} \<inter> {2..6} \<noteq> {}" by blast
  next
    assume "{mn..mx} \<inter> {2..6} \<noteq> {}"
    then obtain y where "y \<in> {mn..mx} \<inter> {2..6}" by blast
    then show "\<not> (mx < 2 \<or> mn > 6)" by auto
  qed
  then show ?thesis
    by (simp add: experience_matches_def MIN_YEARS_def MAX_YEARS_def)
qed


theorem experience_matches_band_witness:
  "(1::int) \<le> 3 \<and> experience_matches (Some 1) (Some 3) = ({1..3} \<inter> {2..6} \<noteq> ({}::int set))"
  using experience_matches_band [of 1 3] by simp

lemma parse_None_None:
  "fst (parse_experience_text t) = None \<Longrightarrow> snd (parse_experience_text t) = None"
  by (simp add: parse_experience_text_def Let_def split: if_splits option.splits)


text \<open>
  Claim C6. For every pair that \<open>parse_experience_text\<close> returns, a missing minimum
  implies a missing maximum; so on such a pair \<open>experience_matches\<close> never leaves
  through its only-max branch nor through its final \<open>return False\<close> (which no
  arguments reach at all).
\<close>

theorem parse_never_only_max:
  "(fst (parse_experience_text t) = None \<longrightarrow> snd (parse_experience_text t) = None)
   \<and> experience_exit (fst (parse_experience_text t)) (snd (parse_experience_text t)) \<noteq> OnlyMax
   \<and> experience_exit (fst (parse_experience_text t)) (snd (parse_experience_text t)) \<noteq> Fallthrough
   \<and> experience_exit a b \<noteq> Fallthrough"
  using parse_None_None [of t] by (auto simp: experience_exit_def)


theorem parse_never_only_max_witness:
  "fst (parse_experience_text (Some ''senior role'')) = None
   \<and> snd (parse_experience_text (Some ''senior role'')) = None"
proof -
  have h: "fst (parse_experience_text (Some ''senior role'')) = None" by code_simp
  with parse_never_only_max [of "Some ''senior role''"] show ?thesis by simp
qed

lemma parse_unfold:
  "s \<noteq> [] \<Longrightarrow> parse_experience_text (Some s) =
     (case re_search pat_range (lower s) of
        Some m \<Rightarrow> (Some (py_int (match_group m 1)), Some (py_int (match_group m 2)))
      | None \<Rightarrow>
     (case re_search pat_plus (lower s) of
        Some m \<Rightarrow> (Some (py_int (match_group m 1)), None)
      | None \<Rightarrow>
     (case re_search pat_minimum (lower s) of
        Some m \<Rightarrow> (Some (py_int (match_group m 1)), None)
      | None \<Rightarrow>
     (case re_search pat_bare (lower s) of
        Some m \<Rightarrow> (Some (py_int (match_group m 1)), Some (py_int (match_group m 1)))
      | None \<Rightarrow> (None, None)))))"
  by (simp add: parse_experience_text_def truthy_def Let_def)

lemma lower_drop: "lower (drop i s) = drop i (lower s)"
  by (simp add: lower_def drop_map)

lemma lower_length: "length (lower s) = length s"
  by (simp add: lower_def)

lemma dash_excludes: "is_space x \<Longrightarrow> \<not> is_dash x" "is_digit x \<Longrightarrow> \<not> is_dash x"
  using dash_not_space dash_not_digit by blast+

lemma plus_excludes: "is_space x \<Longrightarrow> \<not> x = CHR ''+''" "is_digit x \<Longrightarrow> \<not> x = CHR ''+''"
  using plus_char by blast+

lemma digit_free_not_earlier:
  assumes "\<forall>x \<in> set pre. \<not> is_digit x" and "i < length pre"
  shows "re_match pat_range (lower (drop i pre @ t)) = None"
proof -
  from assms(2) obtain y ys where d: "drop i pre = y # ys" by (cases "drop i pre") simp_all
  then have "y \<in> set (drop i pre)" by simp
  then have "y \<in> set pre" by (rule in_set_dropD)
  with assms(1) have "\<not> is_digit (lower_char y)" by (simp add: lower_char_keeps_digit)
  then have h: "lower (drop i pre @ t) = []
      \<or> \<not> atom_class (Grp is_digit 1 (Some 2)) (hd (lower (drop i pre @ t)))"
    by (simp add: d lower_Cons)
  have l: "1 \<le> atom_lo (Grp is_digit 1 (Some 2))" by simp
  from l h have "re_match (Grp is_digit 1 (Some 2)
        # ([Rep is_space 0 None, Rep is_dash 1 (Some 1), Rep is_space 0 None,
            Grp is_digit 1 (Some 2)] @ years_tail)) (lower (drop i pre @ t)) = None"
    by (rule re_match_no_start)
  then show ?thesis by (simp add: pat_range_def)
qed

lemma parse_range_text:
  assumes pre: "(\<forall>x \<in> set pre. \<not> is_digit x)
      \<or> (\<forall>i < length pre. re_match pat_range
             (lower (drop i pre @ d1 @ s1 @ c # s2 @ d2 @ s3 @ yr @ rest)) = None)"
    and d1: "\<forall>c \<in> set d1. is_digit c" "1 \<le> length d1" "length d1 \<le> 2"
    and d2: "\<forall>c \<in> set d2. is_digit c" "1 \<le> length d2" "length d2 \<le> 2"
    and sp: "\<forall>c \<in> set s1. is_space c" "\<forall>c \<in> set s2. is_space c" "\<forall>c \<in> set s3. is_space c"
    and dash: "is_dash c"
    and yr: "lower yr = ''year''"
  shows "parse_experience_text (Some (pre @ d1 @ s1 @ c # s2 @ d2 @ s3 @ yr @ rest))
         = (Some (py_int d1), Some (py_int d2))"
proof -
  let ?X = "d1 @ s1 @ c # s2 @ d2 @ s3 @ yr @ rest"
  let ?phrase = "d1 @ s1 @ c # s2 @ d2 @ s3 @ ''year'' @ lower rest"
  from d1(2) have ne: "d1 \<noteq> []" by (cases d1) simp_all
  then have tr: "truthy (Some (pre @ ?X))" by (simp add: truthy_def)
  have l1: "lower d1 = d1" "lower d2 = d2" "lower s1 = s1" "lower s2 = s2" "lower s3 = s3"
    using d1(1) d2(1) sp by (simp_all add: lower_fixed)
  have lc: "lower_char c = c" using dash by (simp add: lower_char_fixed)
  have lx: "lower ?X = ?phrase"
    by (simp only: lower_append lower_Cons l1 lc yr)
  have low: "lower (pre @ ?X) = lower pre @ ?phrase"
    by (simp only: lower_append [of pre ?X] lx)
  have e: "\<And>i. i < length pre \<Longrightarrow> re_match pat_range (lower (drop i pre @ ?X)) = None"
    using pre digit_free_not_earlier by blast
  have "re_search pat_range (lower pre @ ?phrase) = re_search pat_range ?phrase"
  proof (rule re_search_skip_general)
    fix i assume "i < length (lower pre)"
    then have il: "i < length pre" by (simp add: lower_length)
    have eq: "lower (drop i pre @ ?X) = drop i (lower pre) @ ?phrase"
      by (simp only: lower_append [of "drop i pre" ?X] lower_drop lx)
    from e [OF il] show "re_match pat_range (drop i (lower pre) @ ?phrase) = None"
      unfolding eq .
  qed
  also have "\<dots> = Some [d1, d2]"
    by (rule re_search_here) (rule re_match_pat_range [OF d1 d2 sp dash])
  finally have "re_search pat_range (lower (pre @ ?X)) = Some [d1, d2]"
    by (simp only: low)
  with tr show ?thesis
    by (simp add: parse_experience_text_def Let_def match_group_def del: re_search.simps)
qed

lemma no_range_no_plus:
  assumes a: "\<forall>x \<in> set a. \<not> is_digit x" and d: "\<forall>x \<in> set d. is_digit x"
    and sp: "\<forall>x \<in> set s. is_space x" and t: "\<forall>x \<in> set t. \<not> is_digit x"
  shows "re_search pat_range (a @ d @ s @ ''year'' @ t) = None"
    and "re_search pat_plus (a @ d @ s @ ''year'' @ t) = None"
proof -
  have y: "\<not> is_digit CHR ''y''" "\<not> is_space CHR ''y''"
    by (rule y_not_digit) (rule y_not_space)
  have t': "\<forall>x \<in> set (''ear'' @ t). \<not> is_digit x"
    using t by (simp add: is_digit_def)
  have lo: "(1::nat) \<le> 1" by simp
  have "re_search (Grp is_digit 1 (Some 2) # Rep is_space 0 None # Rep is_dash 1 (Some 1)
          # (Rep is_space 0 None # Grp is_digit 1 (Some 2) # years_tail))
          (a @ d @ s @ CHR ''y'' # (''ear'' @ t)) = None"
    using a d sp y y_char(1) t' dash_excludes lo by (rule re_search_island_blocked)
  then show "re_search pat_range (a @ d @ s @ ''year'' @ t) = None"
    by (simp add: pat_range_def del: re_search.simps)
  have "re_search (Grp is_digit 1 (Some 2) # Rep is_space 0 None
          # Rep (\<lambda>x. x = CHR ''+'') 1 (Some 1) # years_tail)
          (a @ d @ s @ CHR ''y'' # (''ear'' @ t)) = None"
    using a d sp y y_char(2) t' plus_excludes lo by (rule re_search_island_blocked)
  then show "re_search pat_plus (a @ d @ s @ ''year'' @ t) = None"
    by (simp add: pat_plus_def lit_def del: re_search.simps)
qed

lemma parse_plus_text:
  assumes pre: "\<forall>x \<in> set pre. \<not> is_digit x" and rest: "\<forall>x \<in> set rest. \<not> is_digit x"
    and d: "\<forall>c \<in> set d. is_digit c" "1 \<le> length d" "length d \<le> 2"
    and sp: "\<forall>c \<in> set s1. is_space c" "\<forall>c \<in> set s2. is_space c"
    and yr: "lower yr = ''year''"
  shows "parse_experience_text (Some (pre @ d @ s1 @ CHR ''+'' # s2 @ yr @ rest))
         = (Some (py_int d), None)"
proof -
  let ?text = "pre @ d @ s1 @ CHR ''+'' # s2 @ yr @ rest"
  let ?tail = "s2 @ ''year'' @ lower rest"
  let ?phrase = "d @ s1 @ CHR ''+'' # ?tail"
  from d(2) have ne: "d \<noteq> []" by (cases d) simp_all
  then have tr: "truthy (Some ?text)" by (simp add: truthy_def)
  have l1: "lower d = d" "lower s1 = s1" "lower s2 = s2"
    using d(1) sp by (simp_all add: lower_fixed)
  have low: "lower ?text = lower pre @ ?phrase"
    by (simp only: lower_append lower_Cons l1 plus_char(4) yr)
  have lp: "\<forall>x \<in> set (lower pre). \<not> is_digit x" using pre by (rule lower_no_digit)
  have lr: "\<forall>x \<in> set (lower rest). \<not> is_digit x" using rest by (rule lower_no_digit)
  have lt: "\<forall>x \<in> set ?tail. \<not> is_digit x"
    using sp(2) lr word_chars(3) by (auto simp: space_not_digit)
  have lo: "(1::nat) \<le> 1" by simp
  have "re_search (Grp is_digit 1 (Some 2) # Rep is_space 0 None # Rep is_dash 1 (Some 1)
          # (Rep is_space 0 None # Grp is_digit 1 (Some 2) # years_tail))
          (lower pre @ d @ s1 @ CHR ''+'' # ?tail) = None"
    using lp d(1) sp(1) plus_char(1,2,3) lt dash_excludes lo
    by (rule re_search_island_blocked)
  then have r: "re_search pat_range (lower pre @ ?phrase) = None"
    by (simp add: pat_range_def del: re_search.simps)
  have "re_search pat_plus (lower pre @ ?phrase) = re_search pat_plus ?phrase"
    unfolding pat_plus_def append_Cons
    by (rule re_search_skip) (use lp in simp_all)
  also have "\<dots> = Some [d]"
    by (rule re_search_here) (rule re_match_pat_plus [OF d sp])
  finally have p: "re_search pat_plus (lower pre @ ?phrase) = Some [d]" .
  from r p have "re_search pat_range (lower ?text) = None"
    and "re_search pat_plus (lower ?text) = Some [d]"
    by (simp_all only: low)
  with tr show ?thesis
    by (simp add: parse_experience_text_def Let_def match_group_def del: re_search.simps)
qed

lemma parse_minimum_text:
  assumes pre: "\<forall>x \<in> set pre. \<not> is_digit x" and rest: "\<forall>x \<in> set rest. \<not> is_digit x"
    and d: "\<forall>c \<in> set d. is_digit c" "1 \<le> length d" "length d \<le> 2"
    and w: "\<forall>c \<in> set w1. is_space c" "w1 \<noteq> []" "\<forall>c \<in> set w2. is_space c" "w2 \<noteq> []"
    and sp: "\<forall>c \<in> set s. is_space c"
    and mn: "lower mn = ''minimum''" and ofw: "lower ofw = ''of''"
    and yr: "lower yr = ''year''"
  shows "parse_experience_text (Some (pre @ mn @ w1 @ ofw @ w2 @ d @ s @ yr @ rest))
         = (Some (py_int d), None)"
proof -
  let ?text = "pre @ mn @ w1 @ ofw @ w2 @ d @ s @ yr @ rest"
  let ?tail = "s @ ''year'' @ lower rest"
  let ?phrase = "''minimum'' @ w1 @ ''of'' @ w2 @ d @ ?tail"
  let ?a = "lower pre @ ''minimum'' @ w1 @ ''of'' @ w2"
  from d(2) have ne: "d \<noteq> []" by (cases d) simp_all
  then have tr: "truthy (Some ?text)" by (simp add: truthy_def)
  have l1: "lower d = d" "lower w1 = w1" "lower w2 = w2" "lower s = s"
    using d(1) w(1,3) sp by (simp_all add: lower_fixed)
  have low: "lower ?text = lower pre @ ?phrase"
    by (simp only: lower_append l1 mn ofw yr)
  have lp: "\<forall>x \<in> set (lower pre). \<not> is_digit x" using pre by (rule lower_no_digit)
  have lr: "\<forall>x \<in> set (lower rest). \<not> is_digit x" using rest by (rule lower_no_digit)
  have la: "\<forall>x \<in> set ?a. \<not> is_digit x"
    using lp w(1,3) word_chars(1,2) by (auto simp: space_not_digit)
  have re: "?a @ d @ s @ ''year'' @ lower rest = lower pre @ ?phrase" by simp
  from no_range_no_plus [OF la d(1) sp lr]
  have r: "re_search pat_range (lower pre @ ?phrase) = None"
    and p: "re_search pat_plus (lower pre @ ?phrase) = None"
    by (simp_all only: re)
  have "re_search pat_minimum (lower pre @ ?phrase) = re_search pat_minimum ?phrase"
  proof (rule re_search_skip_general)
    fix i assume il: "i < length (lower pre)"
    then have n: "drop i (lower pre) \<noteq> []" by simp
    have "set (drop i (lower pre)) \<subseteq> set (lower pre)" by (rule set_drop_subset)
    with lp have f: "\<forall>x \<in> set (drop i (lower pre)). \<not> is_digit x" by blast
    show "re_match pat_minimum (drop i (lower pre) @ ?phrase) = None"
      using n f w(1,3) ne d(1) by (rule pat_minimum_not_earlier)
  qed
  also have "\<dots> = Some [d]"
    by (rule re_search_here) (rule re_match_pat_minimum [OF d w sp])
  finally have m: "re_search pat_minimum (lower pre @ ?phrase) = Some [d]" .
  from r p m have "re_search pat_range (lower ?text) = None"
    and "re_search pat_plus (lower ?text) = None"
    and "re_search pat_minimum (lower ?text) = Some [d]"
    by (simp_all only: low)
  with tr show ?thesis
    by (simp add: parse_experience_text_def Let_def match_group_def del: re_search.simps)
qed

lemma pat_minimum_digits:
  "pat_minimum = (lits ''minimum'' @ Rep is_space 1 None # lits ''of'' @ [Rep is_space 1 None])
       @ Grp is_digit (Suc 0) (Some 2) # years_tail"
  by (simp add: pat_minimum_def)

lemma parse_bare_text:
  assumes pre: "\<forall>x \<in> set pre. \<not> is_digit x" and rest: "\<forall>x \<in> set rest. \<not> is_digit x"
    and word: "\<not> contains ''minimum'' (lower pre)"
    and d: "\<forall>c \<in> set d. is_digit c" "1 \<le> length d" "length d \<le> 2"
    and sp: "\<forall>c \<in> set s. is_space c"
    and yr: "lower yr = ''year''"
  shows "parse_experience_text (Some (pre @ d @ s @ yr @ rest))
         = (Some (py_int d), Some (py_int d))"
proof -
  let ?text = "pre @ d @ s @ yr @ rest"
  let ?phrase = "d @ s @ ''year'' @ lower rest"
  from d(2) obtain x xs where dc: "d = x # xs" by (cases d) simp_all
  then have tr: "truthy (Some ?text)" by (simp add: truthy_def)
  from dc d(1) have xd: "is_digit x" by simp
  have l1: "lower d = d" "lower s = s"
    using d(1) sp by (simp_all add: lower_fixed)
  have low: "lower ?text = lower pre @ ?phrase"
    by (simp only: lower_append l1 yr)
  have lp: "\<forall>x \<in> set (lower pre). \<not> is_digit x" using pre by (rule lower_no_digit)
  have lr: "\<forall>x \<in> set (lower rest). \<not> is_digit x" using rest by (rule lower_no_digit)
  note r = no_range_no_plus [OF lp d(1) sp lr]
  have "re_search pat_minimum (lower pre @ ?phrase) = re_search pat_minimum ?phrase"
  proof (rule re_search_skip_general)
    fix i assume il: "i < length (lower pre)"
    show "re_match pat_minimum (drop i (lower pre) @ ?phrase) = None"
    proof (rule ccontr)
      assume "re_match pat_minimum (drop i (lower pre) @ ?phrase) \<noteq> None"
      then have "starts_with ''minimum'' (drop i (lower pre) @ ?phrase)"
        by (rule pat_minimum_needs_word)
      then have "starts_with ''minimum'' (drop i (lower pre) @ x # (xs @ s @ ''year'' @ lower rest))"
        by (simp add: dc)
      moreover have "x \<notin> set ''minimum''" using xd word_chars(1) by blast
      ultimately have "starts_with ''minimum'' (drop i (lower pre))"
        by (rule starts_with_cut)
      then have "contains ''minimum'' (lower pre)" by (rule starts_with_drop_contains)
      with word show False by simp
    qed
  qed
  also have "re_search pat_minimum ?phrase = re_search pat_minimum (lower rest)"
  proof -
    have nm: "\<forall>c \<in> set (d @ s @ ''year''). \<not> atom_class (lit CHR ''m'') c"
      using d(1) sp by (auto simp: lit_def is_digit_def is_space_def Let_def)
    have lo: "1 \<le> atom_lo (lit CHR ''m'')" by (simp add: lit_def)
    have "re_search (lit CHR ''m'' # (lits ''inimum'' @ Rep is_space 1 None # lits ''of''
            @ Rep is_space 1 None # Grp is_digit 1 (Some 2) # years_tail))
            ((d @ s @ ''year'') @ lower rest)
          = re_search (lit CHR ''m'' # (lits ''inimum'' @ Rep is_space 1 None # lits ''of''
            @ Rep is_space 1 None # Grp is_digit 1 (Some 2) # years_tail)) (lower rest)"
      using lo nm by (rule re_search_skip)
    then show ?thesis by (simp add: pat_minimum_def lits_def del: re_search.simps)
  qed
  also have "\<dots> = None"
    unfolding pat_minimum_digits using lr by (rule re_search_needs_digit)
  finally have m: "re_search pat_minimum (lower pre @ ?phrase) = None" by simp
  have "re_search pat_bare (lower pre @ ?phrase) = re_search pat_bare ?phrase"
    unfolding pat_bare_def append_Cons
    by (rule re_search_skip) (use lp in simp_all)
  also have "\<dots> = Some [d]"
    by (rule re_search_here) (rule re_match_pat_bare [OF d sp])
  finally have b: "re_search pat_bare (lower pre @ ?phrase) = Some [d]" .
  from r m b have "re_search pat_range (lower ?text) = None"
    and "re_search pat_plus (lower ?text) = None"
    and "re_search pat_minimum (lower ?text) = None"
    and "re_search pat_bare (lower ?text) = Some [d]"
    by (simp_all only: low)
  with tr show ?thesis
    by (simp add: parse_experience_text_def Let_def match_group_def del: re_search.simps)
qed

lemma parse_no_digit:
  assumes "\<forall>x \<in> set s. \<not> is_digit x"
  shows "parse_experience_text (Some s) = (None, None)"
proof -
  from assms have l: "\<forall>x \<in> set (lower s). \<not> is_digit x" by (rule lower_no_digit)
  have "re_search ([] @ Grp is_digit (Suc 0) (Some 2)
          # ([Rep is_space 0 None, Rep is_dash 1 (Some 1), Rep is_space 0 None,
              Grp is_digit 1 (Some 2)] @ years_tail)) (lower s) = None"
    using l by (rule re_search_needs_digit)
  then have r: "re_search pat_range (lower s) = None"
    by (simp add: pat_range_def del: re_search.simps)
  have "re_search ([] @ Grp is_digit (Suc 0) (Some 2)
          # ([Rep is_space 0 None, lit CHR ''+''] @ years_tail)) (lower s) = None"
    using l by (rule re_search_needs_digit)
  then have p: "re_search pat_plus (lower s) = None"
    by (simp add: pat_plus_def del: re_search.simps)
  have m: "re_search pat_minimum (lower s) = None"
    unfolding pat_minimum_digits using l by (rule re_search_needs_digit)
  have "re_search ([] @ Grp is_digit (Suc 0) (Some 2) # years_tail) (lower s) = None"
    using l by (rule re_search_needs_digit)
  then have b: "re_search pat_bare (lower s) = None"
    by (simp add: pat_bare_def del: re_search.simps)
  from r p m b show ?thesis
    by (simp add: parse_experience_text_def Let_def del: re_search.simps)
qed

lemma py_str_4: "py_str 4 = ''4''"
  by code_simp

lemma py_str_3: "py_str 3 = ''3''"
  by code_simp

lemma py_str_5: "py_str 5 = ''5''"
  by code_simp

lemmas py_str_digits = py_str_3 py_str_5

text \<open>
  Claim C1, as the code has it. \<open>parse_experience_text\<close> searches the four patterns
  in order over the lowered text, and the first pattern found anywhere in it decides:
  the range pattern gives \<open>(N, M)\<close>, else the plus pattern gives \<open>(N, None)\<close>, else the
  minimum pattern gives \<open>(N, None)\<close>, else the bare pattern gives \<open>(N, N)\<close>, else
  \<open>(None, None)\<close>; the numbers are the one- or two-digit groups of the match. On
  texts, for numbers below 100: a phrase \<open>N-M years\<close> with \<open>N \<le> M\<close> gives \<open>(N, M)\<close> when the
  range pattern matches nowhere before it, in particular when no digit stands before
  it; and when the number of the phrase holds the only digits of the text,
  \<open>N+ years\<close> gives \<open>(N, None)\<close>, \<open>minimum of N years\<close> gives \<open>(N, None)\<close>, and
  \<open>N years\<close> with no \<open>minimum\<close> before it gives \<open>(N, N)\<close>. A text without digits gives
  \<open>(None, None)\<close>.
\<close>

theorem parse_experience_dispatch:
  "parse_experience_text None = (None, None)
   \<and> parse_experience_text (Some []) = (None, None)
   \<and> (s \<noteq> [] \<longrightarrow>
        (case re_search pat_range (lower s) of
           Some m \<Rightarrow>
             \<exists>g1 g2. m = [g1, g2]
               \<and> (\<forall>c \<in> set g1. is_digit c) \<and> 1 \<le> length g1 \<and> length g1 \<le> 2
               \<and> (\<forall>c \<in> set g2. is_digit c) \<and> 1 \<le> length g2 \<and> length g2 \<le> 2
               \<and> parse_experience_text (Some s) = (Some (py_int g1), Some (py_int g2))
         | None \<Rightarrow>
        (case re_search pat_plus (lower s) of
           Some m \<Rightarrow>
             \<exists>g. m = [g] \<and> (\<forall>c \<in> set g. is_digit c) \<and> 1 \<le> length g \<and> length g \<le> 2
               \<and> parse_experience_text (Some s) = (Some (py_int g), None)
         | None \<Rightarrow>
        (case re_search pat_minimum (lower s) of
           Some m \<Rightarrow>
             \<exists>g. m = [g] \<and> (\<forall>c \<in> set g. is_digit c) \<and> 1 \<le> length g \<and> length g \<le> 2
               \<and> parse_experience_text (Some s) = (Some (py_int g), None)
         | None \<Rightarrow>
        (case re_search pat_bare (lower s) of
           Some m \<Rightarrow>
             \<exists>g. m = [g] \<and> (\<forall>c \<in> set g. is_digit c) \<and> 1 \<le> length g \<and> length g \<le> 2
               \<and> parse_experience_text (Some s) = (Some (py_int g), Some (py_int g))
         | None \<Rightarrow> parse_experience_text (Some s) = (None, None))))))
   \<and> (N < 100 \<and> M < 100 \<and> N \<le> M
        \<and> (\<forall>x \<in> set s1. is_space x) \<and> (\<forall>x \<in> set s2. is_space x) \<and> (\<forall>x \<in> set s3. is_space x)
        \<and> is_dash c \<and> lower yr = ''year''
        \<and> ((\<forall>x \<in> set pre. \<not> is_digit x)
            \<or> (\<forall>i < length pre. re_match pat_range
                  (lower (drop i pre @ py_str N @ s1 @ c # s2 @ py_str M @ s3 @ yr @ rest))
                = None))
      \<longrightarrow> parse_experience_text
            (Some (pre @ py_str N @ s1 @ c # s2 @ py_str M @ s3 @ yr @ rest))
          = (Some (int N), Some (int M)))
   \<and> (N < 100 \<and> (\<forall>x \<in> set pre. \<not> is_digit x) \<and> (\<forall>x \<in> set rest. \<not> is_digit x)
        \<and> (\<forall>x \<in> set s1. is_space x) \<and> (\<forall>x \<in> set s2. is_space x) \<and> lower yr = ''year''
      \<longrightarrow> parse_experience_text (Some (pre @ py_str N @ s1 @ CHR ''+'' # s2 @ yr @ rest))
          = (Some (int N), None))
   \<and> (N < 100 \<and> (\<forall>x \<in> set pre. \<not> is_digit x) \<and> (\<forall>x \<in> set rest. \<not> is_digit x)
        \<and> lower mn = ''minimum'' \<and> lower ofw = ''of''
        \<and> (\<forall>x \<in> set w1. is_space x) \<and> w1 \<noteq> [] \<and> (\<forall>x \<in> set w2. is_space x) \<and> w2 \<noteq> []
        \<and> (\<forall>x \<in> set s1. is_space x) \<and> lower yr = ''year''
      \<longrightarrow> parse_experience_text
            (Some (pre @ mn @ w1 @ ofw @ w2 @ py_str N @ s1 @ yr @ rest))
          = (Some (int N), None))
   \<and> (N < 100 \<and> (\<forall>x \<in> set pre. \<not> is_digit x) \<and> (\<forall>x \<in> set rest. \<not> is_digit x)
        \<and> \<not> contains ''minimum'' (lower pre)
        \<and> (\<forall>x \<in> set s1. is_space x) \<and> lower yr = ''year''
      \<longrightarrow> parse_experience_text (Some (pre @ py_str N @ s1 @ yr @ rest))
          = (Some (int N), Some (int N)))
   \<and> ((\<forall>x \<in> set s. \<not> is_digit x) \<longrightarrow> parse_experience_text (Some s) = (None, None))"
proof (intro conjI impI)
  show "parse_experience_text None = (None, None)"
    by (simp add: parse_experience_text_def truthy_def)
  show "parse_experience_text (Some []) = (None, None)"
    by (simp add: parse_experience_text_def truthy_def)
next
  assume ne: "s \<noteq> []"
  note u = parse_unfold [OF ne]
  show "case re_search pat_range (lower s) of
           Some m \<Rightarrow>
             \<exists>g1 g2. m = [g1, g2]
               \<and> (\<forall>c \<in> set g1. is_digit c) \<and> 1 \<le> length g1 \<and> length g1 \<le> 2
               \<and> (\<forall>c \<in> set g2. is_digit c) \<and> 1 \<le> length g2 \<and> length g2 \<le> 2
               \<and> parse_experience_text (Some s) = (Some (py_int g1), Some (py_int g2))
         | None \<Rightarrow>
        (case re_search pat_plus (lower s) of
           Some m \<Rightarrow>
             \<exists>g. m = [g] \<and> (\<forall>c \<in> set g. is_digit c) \<and> 1 \<le> length g \<and> length g \<le> 2
               \<and> parse_experience_text (Some s) = (Some (py_int g), None)
         | None \<Rightarrow>
        (case re_search pat_minimum (lower s) of
           Some m \<Rightarrow>
             \<exists>g. m = [g] \<and> (\<forall>c \<in> set g. is_digit c) \<and> 1 \<le> length g \<and> length g \<le> 2
               \<and> parse_experience_text (Some s) = (Some (py_int g), None)
         | None \<Rightarrow>
        (case re_search pat_bare (lower s) of
           Some m \<Rightarrow>
             \<exists>g. m = [g] \<and> (\<forall>c \<in> set g. is_digit c) \<and> 1 \<le> length g \<and> length g \<le> 2
               \<and> parse_experience_text (Some s) = (Some (py_int g), Some (py_int g))
         | None \<Rightarrow> parse_experience_text (Some s) = (None, None))))"
  proof (cases "re_search pat_range (lower s)")
    case (Some m)
    from pat_range_shape [OF Some] obtain g1 g2 where
      "m = [g1, g2]" "\<forall>c \<in> set g1. is_digit c" "1 \<le> length g1" "length g1 \<le> 2"
      "\<forall>c \<in> set g2. is_digit c" "1 \<le> length g2" "length g2 \<le> 2"
      by blast
    with Some u show ?thesis by (simp add: match_group_def)
  next
    case n1: None
    show ?thesis
    proof (cases "re_search pat_plus (lower s)")
      case (Some m)
      from pat_plus_shape [OF Some] obtain g where
        "m = [g]" "\<forall>c \<in> set g. is_digit c" "1 \<le> length g" "length g \<le> 2"
        by blast
      with Some n1 u show ?thesis by (simp add: match_group_def)
    next
      case n2: None
      show ?thesis
      proof (cases "re_search pat_minimum (lower s)")
        case (Some m)
        from pat_minimum_shape [OF Some] obtain g where
          "m = [g]" "\<forall>c \<in> set g. is_digit c" "1 \<le> length g" "length g \<le> 2"
          by blast
        with Some n1 n2 u show ?thesis by (simp add: match_group_def)
      next
        case n3: None
        show ?thesis
        proof (cases "re_search pat_bare (lower s)")
          case (Some m)
          from pat_bare_shape [OF Some] obtain g where
            "m = [g]" "\<forall>c \<in> set g. is_digit c" "1 \<le> length g" "length g \<le> 2"
            by blast
          with Some n1 n2 n3 u show ?thesis by (simp add: match_group_def)
        next
          case None
          with n1 n2 n3 u show ?thesis by simp
        qed
      qed
    qed
  qed
next
  assume a: "N < 100 \<and> M < 100 \<and> N \<le> M
        \<and> (\<forall>x \<in> set s1. is_space x) \<and> (\<forall>x \<in> set s2. is_space x) \<and> (\<forall>x \<in> set s3. is_space x)
        \<and> is_dash c \<and> lower yr = ''year''
        \<and> ((\<forall>x \<in> set pre. \<not> is_digit x)
            \<or> (\<forall>i < length pre. re_match pat_range
                  (lower (drop i pre @ py_str N @ s1 @ c # s2 @ py_str M @ s3 @ yr @ rest))
                = None))"
  then have n: "N < 100" and m: "M < 100"
    and sp: "\<forall>x \<in> set s1. is_space x" "\<forall>x \<in> set s2. is_space x" "\<forall>x \<in> set s3. is_space x"
    and dash: "is_dash c" and yr: "lower yr = ''year''"
    and pre: "(\<forall>x \<in> set pre. \<not> is_digit x)
            \<or> (\<forall>i < length pre. re_match pat_range
                  (lower (drop i pre @ py_str N @ s1 @ c # s2 @ py_str M @ s3 @ yr @ rest))
                = None)"
    by blast+
  have "parse_experience_text
          (Some (pre @ py_str N @ s1 @ c # s2 @ py_str M @ s3 @ yr @ rest))
        = (Some (py_int (py_str N)), Some (py_int (py_str M)))"
    using pre py_str_numeral(1-3) [OF n] py_str_numeral(1-3) [OF m] sp dash yr
    by (rule parse_range_text)
  then show "parse_experience_text
          (Some (pre @ py_str N @ s1 @ c # s2 @ py_str M @ s3 @ yr @ rest))
        = (Some (int N), Some (int M))"
    by (simp only: py_str_numeral(4) [OF n] py_str_numeral(4) [OF m])
next
  assume a: "N < 100 \<and> (\<forall>x \<in> set pre. \<not> is_digit x) \<and> (\<forall>x \<in> set rest. \<not> is_digit x)
        \<and> (\<forall>x \<in> set s1. is_space x) \<and> (\<forall>x \<in> set s2. is_space x) \<and> lower yr = ''year''"
  then have n: "N < 100" and pre: "\<forall>x \<in> set pre. \<not> is_digit x"
    and rest: "\<forall>x \<in> set rest. \<not> is_digit x"
    and sp: "\<forall>x \<in> set s1. is_space x" "\<forall>x \<in> set s2. is_space x"
    and yr: "lower yr = ''year''"
    by blast+
  have "parse_experience_text (Some (pre @ py_str N @ s1 @ CHR ''+'' # s2 @ yr @ rest))
        = (Some (py_int (py_str N)), None)"
    using pre rest py_str_numeral(1-3) [OF n] sp yr by (rule parse_plus_text)
  then show "parse_experience_text (Some (pre @ py_str N @ s1 @ CHR ''+'' # s2 @ yr @ rest))
        = (Some (int N), None)"
    by (simp only: py_str_numeral(4) [OF n])
next
  assume a: "N < 100 \<and> (\<forall>x \<in> set pre. \<not> is_digit x) \<and> (\<forall>x \<in> set rest. \<not> is_digit x)
        \<and> lower mn = ''minimum'' \<and> lower ofw = ''of''
        \<and> (\<forall>x \<in> set w1. is_space x) \<and> w1 \<noteq> [] \<and> (\<forall>x \<in> set w2. is_space x) \<and> w2 \<noteq> []
        \<and> (\<forall>x \<in> set s1. is_space x) \<and> lower yr = ''year''"
  then have n: "N < 100" and pre: "\<forall>x \<in> set pre. \<not> is_digit x"
    and rest: "\<forall>x \<in> set rest. \<not> is_digit x"
    and mn: "lower mn = ''minimum''" and ofw: "lower ofw = ''of''"
    and w: "\<forall>x \<in> set w1. is_space x" "w1 \<noteq> []" "\<forall>x \<in> set w2. is_space x" "w2 \<noteq> []"
    and sp: "\<forall>x \<in> set s1. is_space x" and yr: "lower yr = ''year''"
    by blast+
  have "parse_experience_text
          (Some (pre @ mn @ w1 @ ofw @ w2 @ py_str N @ s1 @ yr @ rest))
        = (Some (py_int (py_str N)), None)"
    using pre rest py_str_numeral(1-3) [OF n] w sp mn ofw yr by (rule parse_minimum_text)
  then show "parse_experience_text
          (Some (pre @ mn @ w1 @ ofw @ w2 @ py_str N @ s1 @ yr @ rest))
        = (Some (int N), None)"
    by (simp only: py_str_numeral(4) [OF n])
next
  assume a: "N < 100 \<and> (\<forall>x \<in> set pre. \<not> is_digit x) \<and> (\<forall>x \<in> set rest. \<not> is_digit x)
        \<and> \<not> contains ''minimum'' (lower pre)
        \<and> (\<forall>x \<in> set s1. is_space x) \<and> lower yr = ''year''"
  then have n: "N < 100" and pre: "\<forall>x \<in> set pre. \<not> is_digit x"
    and rest: "\<forall>x \<in> set rest. \<not> is_digit x"
    and word: "\<not> contains ''minimum'' (lower pre)"
    and sp: "\<forall>x \<in> set s1. is_space x" and yr: "lower yr = ''year''"
    by blast+
  have "parse_experience_text (Some (pre @ py_str N @ s1 @ yr @ rest))
        = (Some (py_int (py_str N)), Some (py_int (py_str N)))"
    using pre rest word py_str_numeral(1-3) [OF n] sp yr by (rule parse_bare_text)
  then show "parse_experience_text (Some (pre @ py_str N @ s1 @ yr @ rest))
        = (Some (int N), Some (int N))"
    by (simp only: py_str_numeral(4) [OF n])
next
  assume "\<forall>x \<in> set s. \<not> is_digit x"
  then show "parse_experience_text (Some s) = (None, None)" by (rule parse_no_digit)
qed

lemma char_facts:
  "is_dash CHR ''-''" "lower ''year'' = ''year''" "lower ''Minimum'' = ''minimum''"
  "lower ''of'' = ''of''" "\<forall>x \<in> set '' ''. is_space x"
  by code_simp+

theorem parse_experience_dispatch_witness:
  "(3::nat) < 100 \<and> (5::nat) < 100 \<and> (3::nat) \<le> 5 \<and> is_dash CHR ''-''
   \<and> lower ''year'' = ''year'' \<and> lower ''Minimum'' = ''minimum''
   \<and> \<not> contains ''minimum'' (lower ''about '')
   \<and> parse_experience_text (Some ''3-5 years of experience'') = (Some 3, Some 5)
   \<and> parse_experience_text (Some ''7+ years or 3-5 years'') = (Some 3, Some 5)
   \<and> parse_experience_text (Some ''5+ years required'') = (Some 5, None)
   \<and> parse_experience_text (Some ''Minimum of 4 years'') = (Some 4, None)
   \<and> parse_experience_text (Some ''about 4 years'') = (Some 4, Some 4)
   \<and> parse_experience_text (Some ''senior role'') = (None, None)"
proof -
  note h = char_facts
  have w: "\<not> contains ''minimum'' (lower ''about '')" by code_simp
  have nd: "\<forall>x \<in> set ''about ''. \<not> is_digit x" "\<forall>x \<in> set ''s required''. \<not> is_digit x"
    "\<forall>x \<in> set ''s''. \<not> is_digit x" "\<forall>x \<in> set ''senior role''. \<not> is_digit x"
    by (simp_all add: is_digit_def)
  have "\<forall>i \<in> set [0 ..< 12]. re_match pat_range
          (lower (drop i ''7+ years or '' @ ''3-5 years'')) = None"
    by code_simp
  then have e: "\<forall>i < length ''7+ years or ''. re_match pat_range
          (lower (drop i ''7+ years or '' @ py_str 3 @ [] @ CHR ''-'' # [] @ py_str 5
                  @ '' '' @ ''year'' @ ''s'')) = None"
    by (simp add: py_str_digits)
  from parse_experience_dispatch
         [where N = 3 and M = 5 and pre = "[]" and ?s1.0 = "[]" and c = "CHR ''-''"
            and ?s2.0 = "[]" and ?s3.0 = "'' ''" and yr = "''year''"
            and rest = "''s of experience''", THEN conjunct2, THEN conjunct2,
          THEN conjunct2, THEN conjunct1] h
  have r1: "parse_experience_text (Some ''3-5 years of experience'') = (Some 3, Some 5)"
    by (simp add: py_str_digits)
  from parse_experience_dispatch
         [where N = 3 and M = 5 and pre = "''7+ years or ''" and ?s1.0 = "[]"
            and c = "CHR ''-''" and ?s2.0 = "[]" and ?s3.0 = "'' ''" and yr = "''year''"
            and rest = "''s''", THEN conjunct2, THEN conjunct2,
          THEN conjunct2, THEN conjunct1] h e
  have r1': "parse_experience_text (Some ''7+ years or 3-5 years'') = (Some 3, Some 5)"
    by (simp add: py_str_digits)
  from parse_experience_dispatch
         [where N = 5 and pre = "[]" and ?s1.0 = "[]" and ?s2.0 = "'' ''" and yr = "''year''"
            and rest = "''s required''", THEN conjunct2, THEN conjunct2,
          THEN conjunct2, THEN conjunct2, THEN conjunct1] h nd
  have r2: "parse_experience_text (Some ''5+ years required'') = (Some 5, None)"
    by (simp add: py_str_digits)
  from parse_experience_dispatch
         [where N = 4 and pre = "[]" and mn = "''Minimum''" and ofw = "''of''"
            and ?w1.0 = "'' ''" and ?w2.0 = "'' ''" and ?s1.0 = "'' ''" and yr = "''year''"
            and rest = "''s''", THEN conjunct2, THEN conjunct2,
          THEN conjunct2, THEN conjunct2, THEN conjunct2, THEN conjunct1] h nd
  have r3: "parse_experience_text (Some ''Minimum of 4 years'') = (Some 4, None)"
    by (simp add: py_str_4)
  from parse_experience_dispatch
         [where N = 4 and pre = "''about ''" and ?s1.0 = "'' ''" and yr = "''year''"
            and rest = "''s''", THEN conjunct2, THEN conjunct2,
          THEN conjunct2, THEN conjunct2, THEN conjunct2, THEN conjunct2, THEN conjunct1]
       h nd w
  have r4: "parse_experience_text (Some ''about 4 years'') = (Some 4, Some 4)"
    by (simp add: py_str_4)
  from parse_experience_dispatch
         [where s = "''senior role''", THEN conjunct2, THEN conjunct2,
          THEN conjunct2, THEN conjunct2, THEN conjunct2, THEN conjunct2, THEN conjunct2] nd
  have r5: "parse_experience_text (Some ''senior role'') = (None, None)"
    by simp
  from h w r1 r1' r2 r3 r4 r5 show ?thesis by simp
qed

text \<open>
  A number of three digits is not read whole. In \<open>5-100 years\<close> the range pattern
  finds no match, because \<open>\d{1,2}\<close> cannot take \<open>100\<close>; the bare pattern then finds
  \<open>00 years\<close>.
\<close>

theorem three_digit_range_counterexample:
  "(5::nat) \<le> 100
   \<and> ''5-100 years'' = py_str 5 @ ''-'' @ py_str 100 @ '' years''
   \<and> parse_experience_text (Some ''5-100 years'') = (Some 0, Some 0)"
  by code_simp

text \<open>
  Claim C9, as the code has it. The range pattern does not order its two numbers: on
  a phrase \<open>N-M years\<close> with \<open>N > M\<close>, both below 100, that the range pattern matches
  nowhere before (in particular when no digit stands before it), the extractor
  returns \<open>(N, M)\<close>, a pair whose minimum exceeds its maximum, and
  \<open>experience_matches\<close> judges it in its both-present branch by the overlap formula.
\<close>

theorem parse_range_unordered:
  "N < 100 \<and> M < 100 \<and> M < N
     \<and> (\<forall>x \<in> set s1. is_space x) \<and> (\<forall>x \<in> set s2. is_space x) \<and> (\<forall>x \<in> set s3. is_space x)
     \<and> is_dash c \<and> lower yr = ''year''
     \<and> ((\<forall>x \<in> set pre. \<not> is_digit x)
         \<or> (\<forall>i < length pre. re_match pat_range
               (lower (drop i pre @ py_str N @ s1 @ c # s2 @ py_str M @ s3 @ yr @ rest))
             = None))
   \<longrightarrow> parse_experience_text
         (Some (pre @ py_str N @ s1 @ c # s2 @ py_str M @ s3 @ yr @ rest))
       = (Some (int N), Some (int M))
     \<and> int M < int N
     \<and> experience_exit (Some (int N)) (Some (int M)) = BothPresent
     \<and> experience_matches (Some (int N)) (Some (int M)) = (\<not> (int M < 2 \<or> int N > 6))"
proof (intro impI conjI)
  assume a: "N < 100 \<and> M < 100 \<and> M < N
     \<and> (\<forall>x \<in> set s1. is_space x) \<and> (\<forall>x \<in> set s2. is_space x) \<and> (\<forall>x \<in> set s3. is_space x)
     \<and> is_dash c \<and> lower yr = ''year''
     \<and> ((\<forall>x \<in> set pre. \<not> is_digit x)
         \<or> (\<forall>i < length pre. re_match pat_range
               (lower (drop i pre @ py_str N @ s1 @ c # s2 @ py_str M @ s3 @ yr @ rest))
             = None))"
  then have n: "N < 100" and m: "M < 100" and mn: "M < N"
    and sp: "\<forall>x \<in> set s1. is_space x" "\<forall>x \<in> set s2. is_space x" "\<forall>x \<in> set s3. is_space x"
    and dash: "is_dash c" and yr: "lower yr = ''year''"
    and pre: "(\<forall>x \<in> set pre. \<not> is_digit x)
            \<or> (\<forall>i < length pre. re_match pat_range
                  (lower (drop i pre @ py_str N @ s1 @ c # s2 @ py_str M @ s3 @ yr @ rest))
                = None)"
    by blast+
  have "parse_experience_text
          (Some (pre @ py_str N @ s1 @ c # s2 @ py_str M @ s3 @ yr @ rest))
        = (Some (py_int (py_str N)), Some (py_int (py_str M)))"
    using pre py_str_numeral(1-3) [OF n] py_str_numeral(1-3) [OF m] sp dash yr
    by (rule parse_range_text)
  then show "parse_experience_text
          (Some (pre @ py_str N @ s1 @ c # s2 @ py_str M @ s3 @ yr @ rest))
        = (Some (int N), Some (int M))"
    by (simp only: py_str_numeral(4) [OF n] py_str_numeral(4) [OF m])
  show "int M < int N" using mn by simp
  show "experience_exit (Some (int N)) (Some (int M)) = BothPresent"
    by (simp add: experience_exit_def)
  show "experience_matches (Some (int N)) (Some (int M)) = (\<not> (int M < 2 \<or> int N > 6))"
    by (simp add: experience_matches_def MIN_YEARS_def MAX_YEARS_def)
qed

theorem parse_range_unordered_witness:
  "(5::nat) < 100 \<and> (3::nat) < 100 \<and> (3::nat) < 5 \<and> is_dash CHR ''-''
   \<and> lower ''year'' = ''year''
   \<and> re_match pat_range ''2 roles: 5-3 years'' = None
   \<and> re_match pat_range ''5-3 years'' = Some [''5'', ''3'']
   \<and> parse_experience_text (Some ''2 roles: 5-3 years'') = (Some 5, Some 3)
   \<and> experience_matches (Some 5) (Some 3) = True"
proof -
  have h: "is_dash CHR ''-''" "lower ''year'' = ''year''" "\<forall>x \<in> set '' ''. is_space x"
    by (simp_all add: is_dash_def lower_def lower_char_def is_space_def)
  have "\<forall>i \<in> set [0 ..< 9]. re_match pat_range
          (lower (drop i ''2 roles: '' @ ''5-3 years'')) = None"
    by code_simp
  then have e: "\<forall>i < length ''2 roles: ''. re_match pat_range
         (lower (drop i ''2 roles: '' @ ''5-3 years'')) = None"
    by simp
  then have e': "\<forall>i < length ''2 roles: ''. re_match pat_range
          (lower (drop i ''2 roles: '' @ py_str 5 @ [] @ CHR ''-'' # [] @ py_str 3
                  @ '' '' @ ''year'' @ ''s'')) = None"
    by (simp add: py_str_digits)
  from parse_range_unordered
         [where N = 5 and M = 3 and pre = "''2 roles: ''" and ?s1.0 = "[]"
            and c = "CHR ''-''" and ?s2.0 = "[]" and ?s3.0 = "'' ''" and yr = "''year''"
            and rest = "''s''"] h e'
  have "parse_experience_text (Some ''2 roles: 5-3 years'') = (Some 5, Some 3)
      \<and> experience_matches (Some 5) (Some 3) = True"
    by (simp add: py_str_digits)
  moreover have "re_match pat_range ''2 roles: 5-3 years'' = None"
    and "re_match pat_range ''5-3 years'' = Some [''5'', ''3'']"
    by code_simp+
  ultimately show ?thesis using h by simp
qed

text \<open>
  A first number of three digits is not read whole either: in \<open>100-5 years\<close> the
  range pattern matches \<open>00-5 years\<close>.
\<close>

theorem three_digit_unordered_counterexample:
  "(5::nat) < 100
   \<and> ''100-5 years'' = py_str 100 @ ''-'' @ py_str 5 @ '' years''
   \<and> parse_experience_text (Some ''100-5 years'') = (Some 0, Some 5)"
  by code_simp

section \<open>Properties of the Aggregator\<close>












section \<open>Properties of the Filter\<close>

lemma filter_loop_eq: "filter_loop js acc = acc @ filter (\<lambda>j. filter_step j = Keep) js"
  by (induction js arbitrary: acc) (auto split: verdict.splits)

lemma filter_jobs_eq: "filter_jobs js = filter (\<lambda>j. filter_step j = Keep) js"
  by (simp add: filter_jobs_def filter_loop_eq)

lemma filter_step_Keep:
  "(filter_step j = Keep) =
     (text_contains_keywords (Some (combined_text j)) KEYWORDS
      \<and> experience_matches (fst (parse_experience_text (Some (combined_text j))))
                            (snd (parse_experience_text (Some (combined_text j))))
      \<and> location_matches (py_or (location j) (snippet j)))"
  by (simp add: filter_step_def Let_def split: prod.splits)


lemma any_keyword_empty: "[] \<notin> set kws \<Longrightarrow> any_keyword [] kws = False"
  by (induction kws) (auto simp: lower_def)

lemma tck_None: "text_contains_keywords None KEYWORDS = False"
  by (simp add: text_contains_keywords_def or_empty_def lower_def KEYWORDS_def)

lemma tck_empty: "text_contains_keywords (Some []) KEYWORDS = False"
  by (simp add: text_contains_keywords_def or_empty_def lower_def KEYWORDS_def)

lemma or_empty_falsy: "\<not> truthy t \<Longrightarrow> or_empty t = []"
  by (auto simp: truthy_def or_empty_def split: option.splits)

lemma combined_text_empty:
  assumes "\<not> truthy (title j)" "\<not> truthy (company j)" "\<not> truthy (location j)" "\<not> truthy (snippet j)"
  shows "combined_text j = []"
  using assms
  by (simp add: combined_text_def or_empty_falsy normalize_text_def truthy_def py_split_def is_space_def)


text \<open>
  Claim C4. \<open>filter_jobs\<close> returns, in input order and unchanged, exactly the records
  for which the keyword test holds on the combined text, the experience pair
  extracted from the combined text is accepted, and the location test holds on the
  location, or on the snippet when the location is absent or empty. The combined
  text is the normalised join of title, company, location and snippet.
\<close>

theorem filter_jobs_keeps_exactly:
  "filter_jobs js =
     filter (\<lambda>j. text_contains_keywords (Some (combined_text j)) KEYWORDS
                \<and> experience_matches (fst (parse_experience_text (Some (combined_text j))))
                                      (snd (parse_experience_text (Some (combined_text j))))
                \<and> location_matches (if truthy (location j) then location j else snippet j)) js
   \<and> combined_text j =
       normalize_text (Some (or_empty (title j) @ '' '' @ or_empty (company j) @ '' '' @
                             or_empty (location j) @ '' '' @ or_empty (snippet j)))"
proof
  have "\<And>j. (filter_step j = Keep) =
     (text_contains_keywords (Some (combined_text j)) KEYWORDS
      \<and> experience_matches (fst (parse_experience_text (Some (combined_text j))))
                            (snd (parse_experience_text (Some (combined_text j))))
      \<and> location_matches (if truthy (location j) then location j else snippet j))"
    by (simp only: filter_step_Keep py_or_def)
  then show "filter_jobs js =
     filter (\<lambda>j. text_contains_keywords (Some (combined_text j)) KEYWORDS
                \<and> experience_matches (fst (parse_experience_text (Some (combined_text j))))
                                      (snd (parse_experience_text (Some (combined_text j))))
                \<and> location_matches (if truthy (location j) then location j else snippet j)) js"
    by (simp only: filter_jobs_eq)
  show "combined_text j =
       normalize_text (Some (or_empty (title j) @ '' '' @ or_empty (company j) @ '' '' @
                             or_empty (location j) @ '' '' @ or_empty (snippet j)))"
    by (simp add: combined_text_def)
qed

text \<open>
  Claim C10. \<open>text_contains_keywords\<close> is false on \<open>None\<close> and on the empty string; so
  a record whose title, company, location and snippet are all absent or empty leaves
  the loop body of \<open>filter_jobs\<close> at the keyword test and is never in its result.
\<close>

theorem empty_record_dropped:
  "text_contains_keywords None KEYWORDS = False
   \<and> text_contains_keywords (Some []) KEYWORDS = False
   \<and> (\<not> truthy (title j) \<and> \<not> truthy (company j) \<and> \<not> truthy (location j)
        \<and> \<not> truthy (snippet j)
      \<longrightarrow> filter_step j = NoKeyword \<and> j \<notin> set (filter_jobs js))"
proof (intro conjI impI)
  show "text_contains_keywords None KEYWORDS = False" by (rule tck_None)
  show "text_contains_keywords (Some []) KEYWORDS = False" by (rule tck_empty)
next
  assume a: "\<not> truthy (title j) \<and> \<not> truthy (company j) \<and> \<not> truthy (location j)
        \<and> \<not> truthy (snippet j)"
  then have "combined_text j = []" by (simp add: combined_text_empty)
  then show s: "filter_step j = NoKeyword"
    by (simp add: filter_step_def tck_empty)
  then show "j \<notin> set (filter_jobs js)" by (simp add: filter_jobs_eq)
qed

theorem empty_record_dropped_witness:
  "\<not> truthy None \<and> \<not> truthy (Some [])
   \<and> filter_jobs [\<lparr>title = None, company = Some [], location = None, link = Some ''u'',
                     source = Some ''Indeed'', snippet = Some []\<rparr>] = []"
proof -
  let ?j = "\<lparr>title = None, company = Some [], location = None, link = Some ''u'',
              source = Some ''Indeed'', snippet = Some []\<rparr>"
  have t: "\<not> truthy None \<and> \<not> truthy (Some [])" by (simp add: truthy_def)
  then have "filter_step ?j = NoKeyword"
    using empty_record_dropped [of ?j "[?j]"] by simp
  then have "filter_jobs [?j] = []" by (simp add: filter_jobs_def)
  with t show ?thesis by simp
qed

section \<open>Properties of the scrapers\<close>























section \<open>Properties of delivery\<close>







end
